theory Spec2Isabelle
  imports Complex_Main "HOL-Library.AList" "HOL-Library.Word"
begin

section \<open>JavaScript values used by the validator core\<close>

text \<open>
  The TypeScript type \<open>number\<close> is modelled by \<open>int\<close>: slots, epochs, counts, stakes,
  lockouts and nonces are integers in every call the repository makes.  Sums and
  products of integers are exact, as they are in double precision while they stay
  below \<open>2 ^ 53\<close> in absolute value.  The one division that leaves the integers,
  in \<open>hasSupermajority\<close>, is rounded to double precision.  A \<open>string\<close> is a
  list of bytes.  A JavaScript \<open>Map\<close> is an association list in insertion order:
  \<open>get\<close> is \<open>map_of\<close>, \<open>set\<close> is \<open>AList.update\<close> (an existing key keeps its
  position, a new key is appended) and \<open>delete\<close> is \<open>AList.delete\<close>.
\<close>

definition digit_char :: "nat \<Rightarrow> char" where
  "digit_char n = char_of (48 + n)"

fun digits :: "nat \<Rightarrow> string" where
  "digits n = (if n < 10 then [digit_char n] else digits (n div 10) @ [digit_char (n mod 10)])"

declare digits.simps [simp del]

text \<open>\<open>Number.prototype.toString()\<close> on an integer: its decimal representation.\<close>

definition toString :: "int \<Rightarrow> string" where
  "toString i = (if i < 0 then CHR ''-'' # digits (nat (- i)) else digits (nat i))"

text \<open>\<open>Array.prototype.findIndex\<close>: the first index whose element satisfies the
  predicate, or \<open>-1\<close>.\<close>

fun findIndex :: "('a \<Rightarrow> bool) \<Rightarrow> 'a list \<Rightarrow> int" where
  "findIndex P [] = - 1"
| "findIndex P (x # xs) =
     (if P x then 0 else (let r = findIndex P xs in if r < 0 then - 1 else r + 1))"

section \<open>Data model (src/types/index.ts)\<close>

record ValidatorInfo =
  publicKey :: string
  stake :: int
  address :: string
  port :: int
  isActive :: bool

record Vote =
  validator :: string
  blockHash :: string
  vote_timestamp :: int
  vote_signature :: string
  lockout :: int

record Transaction =
  tx_from :: string
  tx_to :: string
  amount :: int
  fee :: int
  tx_signature :: string
  tx_timestamp :: int
  tx_nonce :: int

record Block =
  hash :: string
  previousHash :: string
  pohHash :: string
  pohCount :: int
  transactions :: "Transaction list"
  timestamp :: int
  leader :: string
  signature :: string
  slot :: int
  epoch :: int

record LeaderSchedule =
  ls_epoch :: int
  schedule :: "string list"
  seed :: string

definition SLOTS_PER_EPOCH :: int where
  "SLOTS_PER_EPOCH = 64"

definition GENESIS_EPOCH_LEADER_ROTATION_SLOTS :: int where
  "GENESIS_EPOCH_LEADER_ROTATION_SLOTS = 4"

section \<open>The consensus engine (src/core/consensus/index.ts, class SimplifiedConsensus)\<close>

text \<open>
  The private fields of \<open>SimplifiedConsensus\<close>, with the fields of its
  \<open>consensusState\<close> object that the class writes (\<open>votedSlots\<close>, \<open>forkChoice\<close> and
  \<open>consensusState.lockouts\<close> are initialised by the constructor and never touched
  again).  \<open>epochFinalHash\<close> is optional in the source.
\<close>

record Consensus =
  validators :: "(string \<times> ValidatorInfo) list"
  votes :: "(string \<times> Vote list) list"
  lockouts :: "(string \<times> (int \<times> int) list) list"
  leaderSchedules :: "(int \<times> LeaderSchedule) list"
  epochBlocks :: "(int \<times> Block list) list"
  currentSlot :: int
  currentEpoch :: int
  leaderSchedule :: "string list"
  epochStartSlot :: int
  epochFinalHash :: "string option"

text \<open>The constructor, including \<open>initializeGenesisEpoch\<close>.\<close>

definition initial :: Consensus where
  "initial =
     \<lparr> validators = [], votes = [], lockouts = [],
       leaderSchedules = [(0, \<lparr> ls_epoch = 0, schedule = [], seed = ''genesis'' \<rparr>)],
       epochBlocks = [(0, [])],
       currentSlot = 0, currentEpoch = 0, leaderSchedule = [], epochStartSlot = 0,
       epochFinalHash = None \<rparr>"

definition addValidator :: "Consensus \<Rightarrow> ValidatorInfo \<Rightarrow> Consensus" where
  "addValidator s v =
     (let s1 = s\<lparr> validators := AList.update (publicKey v) v (validators s) \<rparr>
      in if map_of (lockouts s1) (publicKey v) = None
         then s1\<lparr> lockouts := AList.update (publicKey v) [] (lockouts s1) \<rparr>
         else s1)"

definition removeValidator :: "Consensus \<Rightarrow> string \<Rightarrow> Consensus" where
  "removeValidator s pk =
     s\<lparr> validators := AList.delete pk (validators s),
        lockouts := AList.delete pk (lockouts s) \<rparr>"

text \<open>The loop of \<open>canVote\<close> over the entries of one validator's lockout table: it
  returns false at the first entry that is still running and expires more than two
  slots after the current slot.\<close>

fun canVote_loop :: "int \<Rightarrow> (int \<times> int) list \<Rightarrow> bool" where
  "canVote_loop cur [] = True"
| "canVote_loop cur ((sl, lockoutExpiry) # rest) =
     (if cur < lockoutExpiry
      then (if lockoutExpiry - cur > 2 then False else canVote_loop cur rest)
      else canVote_loop cur rest)"

definition canVote :: "Consensus \<Rightarrow> string \<Rightarrow> string \<Rightarrow> bool" where
  "canVote s validatorPublicKey bh =
     (case map_of (lockouts s) validatorPublicKey of
        None \<Rightarrow> True
      | Some validatorLockouts \<Rightarrow>
          if length validatorLockouts = 0 then True
          else canVote_loop (currentSlot s) validatorLockouts)"

definition calculateLockout :: "Consensus \<Rightarrow> string \<Rightarrow> int" where
  "calculateLockout s validatorPublicKey =
     (case map_of (lockouts s) validatorPublicKey of
        None \<Rightarrow> 1
      | Some validatorLockouts \<Rightarrow>
          if length validatorLockouts = 0 then 1
          else
            let recentVotes = filter (\<lambda>expiry. expiry > currentSlot s) (map snd validatorLockouts)
            in if length recentVotes = 0 then 1
               else min (int (length recentVotes) + 1) 4)"

definition updateLockout :: "Consensus \<Rightarrow> string \<Rightarrow> string \<Rightarrow> int \<Rightarrow> Consensus" where
  "updateLockout s validatorPublicKey bh lk =
     (case map_of (lockouts s) validatorPublicKey of
        None \<Rightarrow> s
      | Some validatorLockouts \<Rightarrow>
          s\<lparr> lockouts := AList.update validatorPublicKey
                (AList.update (currentSlot s) (currentSlot s + lk) validatorLockouts)
                (lockouts s) \<rparr>)"

definition validateVoteSync :: "Consensus \<Rightarrow> Vote \<Rightarrow> bool" where
  "validateVoteSync s vote =
     (case map_of (validators s) (validator vote) of
        None \<Rightarrow> False
      | Some v \<Rightarrow> if \<not> isActive v then False else canVote s (validator vote) (blockHash vote))"

definition getVotesForBlock :: "Consensus \<Rightarrow> string \<Rightarrow> Vote list" where
  "getVotesForBlock s bh = (case map_of (votes s) bh of None \<Rightarrow> [] | Some vs \<Rightarrow> vs)"

text \<open>\<open>addVote\<close> returns its boolean together with the engine after the call.  The
  array \<open>blockVotes\<close> is the one stored in the map, so writing to it writes the map
  entry.\<close>

definition addVote :: "Consensus \<Rightarrow> Vote \<Rightarrow> bool \<times> Consensus" where
  "addVote s vote =
     (if \<not> validateVoteSync s vote then (False, s)
      else
        let votes1 = (if map_of (votes s) (blockHash vote) = None
                      then AList.update (blockHash vote) [] (votes s) else votes s);
            blockVotes = (case map_of votes1 (blockHash vote) of None \<Rightarrow> [] | Some vs \<Rightarrow> vs);
            existingVoteIndex = findIndex (\<lambda>v. validator v = validator vote) blockVotes;
            blockVotes' = (if existingVoteIndex \<ge> 0
                           then blockVotes[nat existingVoteIndex := vote]
                           else blockVotes @ [vote]);
            s1 = s\<lparr> votes := AList.update (blockHash vote) blockVotes' votes1 \<rparr>
        in (True, updateLockout s1 (validator vote) (blockHash vote) (lockout vote)))"


definition calculateStakeWeight :: "Consensus \<Rightarrow> string \<Rightarrow> int" where
  "calculateStakeWeight s bh =
     fold (\<lambda>vote totalStake.
             case map_of (validators s) (validator vote) of
               None \<Rightarrow> totalStake
             | Some v \<Rightarrow> if isActive v then totalStake + stake v else totalStake)
          (getVotesForBlock s bh) 0"

definition getTotalStake :: "Consensus \<Rightarrow> int" where
  "getTotalStake s =
     fold (\<lambda>v total. if isActive v then total + stake v else total)
          (map snd (validators s)) 0"

text \<open>
  The quotient \<open>(totalStake * 2) / 3\<close> is a double: the exact quotient rounded to the
  nearest number with a significand of 53 bits, a tie going to the even significand.
  \<open>msb n\<close> is the position of the highest bit of \<open>n\<close>, \<open>expo x\<close> the exponent of
  the binade of \<open>x\<close> (the greatest \<open>e\<close> with \<open>2 ^ e \<le> \<bar>x\<bar>\<close>), and \<open>to_double\<close> rounds
  a rational to a multiple of \<open>2 ^ (expo x - 52)\<close>.  The exponent is not bounded: a
  quotient of two integers that are doubles neither overflows nor is subnormal.
\<close>

fun msb :: "nat \<Rightarrow> nat" where
  "msb n = (if n < 2 then 0 else Suc (msb (n div 2)))"

declare msb.simps [simp del]

definition clog2 :: "nat \<Rightarrow> nat" where
  "clog2 n = (if n \<le> 1 then 0 else Suc (msb (n - 1)))"

definition expo :: "rat \<Rightarrow> int" where
  "expo x =
     (let a = \<bar>x\<bar>
      in if 1 \<le> a then int (msb (nat \<lfloor>a\<rfloor>)) else - int (clog2 (nat \<lceil>1 / a\<rceil>)))"

definition round_even :: "rat \<Rightarrow> int" where
  "round_even y =
     (let f = \<lfloor>y\<rfloor>; r = y - of_int f
      in if r < 1 / 2 then f else if 1 / 2 < r then f + 1 else if even f then f else f + 1)"

definition to_double :: "rat \<Rightarrow> rat" where
  "to_double x =
     (if x = 0 then 0
      else let ulp = 2 powi (expo x - 52) in of_int (round_even (x / ulp)) * ulp)"

definition hasSupermajority :: "Consensus \<Rightarrow> string \<Rightarrow> bool" where
  "hasSupermajority s bh =
     (let stakeWeight = calculateStakeWeight s bh;
          totalStake = getTotalStake s
      in (of_int stakeWeight :: rat) > to_double (of_int (totalStake * 2) / 3))"

text \<open>The loop of \<open>selectFork\<close>, carrying \<open>bestBlock\<close> and \<open>bestStakeWeight\<close>.\<close>

fun selectFork_loop :: "Consensus \<Rightarrow> Block option \<Rightarrow> int \<Rightarrow> Block list \<Rightarrow> Block option" where
  "selectFork_loop s bestBlock bestStakeWeight [] = bestBlock"
| "selectFork_loop s bestBlock bestStakeWeight (block # rest) =
     (let stakeWeight = calculateStakeWeight s (hash block)
      in if stakeWeight > bestStakeWeight
         then selectFork_loop s (Some block) stakeWeight rest
         else selectFork_loop s bestBlock bestStakeWeight rest)"

definition selectFork :: "Consensus \<Rightarrow> Block list \<Rightarrow> string option" where
  "selectFork s candidateBlocks =
     (case selectFork_loop s None 0 candidateBlocks of
        None \<Rightarrow> None
      | Some bestBlock \<Rightarrow> Some (hash bestBlock))"

text \<open>\<open>cleanupExpiredLockouts\<close>: for each validator, the slots of the expired entries
  are collected first and then deleted one by one.\<close>

definition cleanupTable :: "int \<Rightarrow> (int \<times> int) list \<Rightarrow> (int \<times> int) list" where
  "cleanupTable cur table =
     (let expiredSlots = map fst (filter (\<lambda>(sl, expiry). cur \<ge> expiry) table)
      in fold AList.delete expiredSlots table)"

definition cleanupExpiredLockouts :: "Consensus \<Rightarrow> Consensus" where
  "cleanupExpiredLockouts s =
     s\<lparr> lockouts := map (\<lambda>(validatorKey, table). (validatorKey, cleanupTable (currentSlot s) table))
                         (lockouts s) \<rparr>"

definition getActiveValidators :: "Consensus \<Rightarrow> ValidatorInfo list" where
  "getActiveValidators s = filter isActive (map snd (validators s))"

definition getEpochFromSlot :: "int \<Rightarrow> int" where
  "getEpochFromSlot sl = sl div SLOTS_PER_EPOCH"

definition addBlock :: "Consensus \<Rightarrow> Block \<Rightarrow> Consensus" where
  "addBlock s block =
     (let ep = getEpochFromSlot (slot block);
          blocks1 = (if map_of (epochBlocks s) ep = None
                     then AList.update ep [] (epochBlocks s) else epochBlocks s);
          arr = (case map_of blocks1 ep of None \<Rightarrow> [] | Some bs \<Rightarrow> bs)
      in s\<lparr> epochBlocks := AList.update ep (arr @ [block]) blocks1 \<rparr>)"

section \<open>Hashing and signatures (Node's crypto module and src/crypto)\<close>

text \<open>
  SHA-256 is a parameter of the model: a function from a byte string to a 256-bit
  digest.  What the code does with a digest is written out: its 32 bytes
  (\<open>digest()\<close>), their hexadecimal form (\<open>digest('hex')\<close>) and the big-endian
  unsigned 32-bit integer at offset 0 (\<open>readUInt32BE(0)\<close>).
\<close>

type_synonym digest = "256 word"

type_synonym sha256_fn = "string \<Rightarrow> digest"

definition digest_bytes :: "digest \<Rightarrow> string" where
  "digest_bytes d = map (\<lambda>i. char_of (unat (drop_bit (8 * (31 - i)) d) mod 256)) [0..<32]"

definition hexdigit :: "nat \<Rightarrow> char" where
  "hexdigit n = ''0123456789abcdef'' ! n"

definition hex :: "string \<Rightarrow> string" where
  "hex bs = concat (map (\<lambda>c. [hexdigit (of_char c div 16), hexdigit (of_char c mod 16)]) bs)"

definition digest_hex :: "digest \<Rightarrow> string" where
  "digest_hex d = hex (digest_bytes d)"

definition readUInt32BE0 :: "digest \<Rightarrow> nat" where
  "readUInt32BE0 d = unat (drop_bit 224 d)"

definition unhex :: "char \<Rightarrow> nat option" where
  "unhex c =
     (let n = (of_char c :: nat)
      in if 48 \<le> n \<and> n \<le> 57 then Some (n - 48)
         else if 97 \<le> n \<and> n \<le> 102 then Some (n - 87)
         else if 65 \<le> n \<and> n \<le> 70 then Some (n - 55)
         else None)"

text \<open>\<open>Buffer.from(s, 'hex')\<close>: pairs of hexadecimal digits are decoded until the
  first pair that is not one; an odd last character is dropped.\<close>

fun hexDecode :: "string \<Rightarrow> string" where
  "hexDecode (a # b # rest) =
     (case (unhex a, unhex b) of
        (Some x, Some y) \<Rightarrow> char_of (16 * x + y) # hexDecode rest
      | _ \<Rightarrow> [])"
| "hexDecode _ = []"

text \<open>\<open>KeyPair.sign\<close> (SHA-256 of the private key followed by the message) and
  \<open>KeyPair.verify\<close> (both byte strings have length 32).\<close>

definition KeyPair_sign :: "sha256_fn \<Rightarrow> string \<Rightarrow> string \<Rightarrow> string" where
  "KeyPair_sign sha privateKeyBytes message = digest_bytes (sha (privateKeyBytes @ message))"

definition KeyPair_verify :: "string \<Rightarrow> string \<Rightarrow> string \<Rightarrow> bool" where
  "KeyPair_verify signatureBytes message publicKeyBytes =
     (length signatureBytes = 32 \<and> length publicKeyBytes = 32)"

text \<open>\<open>SignatureUtils.signMessage\<close> with the key pair made by
  \<open>KeyPair.fromPrivateKey\<close> from a hexadecimal private key, and
  \<open>SignatureUtils.verifySignature\<close> with a hexadecimal public key.\<close>

definition signMessage :: "sha256_fn \<Rightarrow> string \<Rightarrow> string \<Rightarrow> string" where
  "signMessage sha message privateKey =
     (let messageHash = digest_bytes (sha message);
          sig = KeyPair_sign sha (hexDecode privateKey) messageHash
      in hex sig)"

definition verifySignature :: "sha256_fn \<Rightarrow> string \<Rightarrow> string \<Rightarrow> string \<Rightarrow> bool" where
  "verifySignature sha message sig pk =
     (let messageHash = digest_bytes (sha message);
          signatureBytes = hexDecode sig;
          publicKeyBytes = hexDecode pk
      in KeyPair_verify signatureBytes messageHash publicKeyBytes)"


section \<open>Leader schedules and epoch transitions\<close>

datatype error = TypeError

text \<open>
  \<open>Array.prototype.sort\<close> is stable; the comparator is built from
  \<open>String.prototype.localeCompare\<close>, a parameter of the model.  Insertion from the
  right puts an element before the elements it does not compare greater than.
\<close>

fun insert_sorted :: "('a \<Rightarrow> 'a \<Rightarrow> int) \<Rightarrow> 'a \<Rightarrow> 'a list \<Rightarrow> 'a list" where
  "insert_sorted cmp x [] = [x]"
| "insert_sorted cmp x (y # ys) =
     (if cmp x y \<le> 0 then x # y # ys else y # insert_sorted cmp x ys)"

definition sort_by :: "('a \<Rightarrow> 'a \<Rightarrow> int) \<Rightarrow> 'a list \<Rightarrow> 'a list" where
  "sort_by cmp xs = foldr (insert_sorted cmp) xs []"

text \<open>The destructuring swap \<open>[a[i], a[j]] = [a[j], a[i]]\<close>.\<close>

definition swap :: "nat \<Rightarrow> nat \<Rightarrow> 'a list \<Rightarrow> 'a list" where
  "swap i j xs = xs[i := xs ! j, j := xs ! i]"

text \<open>The Fisher-Yates loop of \<open>shuffleValidators\<close>, for \<open>i\<close> from the argument
  down to 1.\<close>

fun shuffle_loop :: "sha256_fn \<Rightarrow> digest \<Rightarrow> nat \<Rightarrow> 'a list \<Rightarrow> 'a list" where
  "shuffle_loop sha h 0 shuffled = shuffled"
| "shuffle_loop sha h (Suc k) shuffled =
     (let i = Suc k;
          seedForIndex = sha (digest_bytes h @ toString (int i));
          j = readUInt32BE0 seedForIndex mod (i + 1)
      in shuffle_loop sha h k (swap i j shuffled))"

definition shuffleValidators :: "sha256_fn \<Rightarrow> ValidatorInfo list \<Rightarrow> string \<Rightarrow> ValidatorInfo list" where
  "shuffleValidators sha vs sd =
     (let shuffled = vs; h = sha sd
      in shuffle_loop sha h (length shuffled - 1) shuffled)"

text \<open>
  \<open>generateEqualDistributionSchedule\<close>.  Indexing an empty array gives
  \<open>undefined\<close>, whose \<open>publicKey\<close> cannot be read: with no validator the first
  iteration throws a TypeError.
\<close>

definition generateEqualDistributionSchedule ::
  "sha256_fn \<Rightarrow> ValidatorInfo list \<Rightarrow> string \<Rightarrow> error + string list" where
  "generateEqualDistributionSchedule sha vs sd =
     (let slotsPerRotation = 4;
          totalSlots = nat SLOTS_PER_EPOCH;
          totalRotations = totalSlots div slotsPerRotation;
          shuffledValidators = shuffleValidators sha vs sd
      in if shuffledValidators = [] \<and> totalSlots > 0 then Inl TypeError
         else
           let rotations = concat (map (\<lambda>rotation.
                   replicate slotsPerRotation
                     (publicKey (shuffledValidators ! (rotation mod length shuffledValidators))))
                 [0..<totalRotations]);
               remainingSlots = totalSlots - length rotations
           in Inr (rotations @
                   map (\<lambda>i. publicKey (shuffledValidators ! (i mod length shuffledValidators)))
                       [0..<remainingSlots]))"

text \<open>The remainder operator on a non-negative dividend; \<open>None\<close> is NaN.\<close>

definition js_rem :: "nat \<Rightarrow> int \<Rightarrow> int option" where
  "js_rem a b = (if b = 0 then None else Some (int a mod \<bar>b\<bar>))"

fun selectLeader_loop :: "int option \<Rightarrow> int \<Rightarrow> ValidatorInfo list \<Rightarrow> ValidatorInfo option" where
  "selectLeader_loop seedValue cumulativeStake [] = None"
| "selectLeader_loop seedValue cumulativeStake (v # rest) =
     (let c = cumulativeStake + stake v
      in if (case seedValue of None \<Rightarrow> False | Some x \<Rightarrow> x < c) then Some v
         else selectLeader_loop seedValue c rest)"

text \<open>\<open>selectLeaderByStake\<close>; \<open>None\<close> is the \<open>undefined\<close> that \<open>validators[0]\<close>
  gives on an empty array.\<close>

definition selectLeaderByStake :: "ValidatorInfo list \<Rightarrow> digest \<Rightarrow> ValidatorInfo option" where
  "selectLeaderByStake vs sd =
     (let totalStake = fold (\<lambda>v sum. sum + stake v) vs 0;
          seedValue = js_rem (readUInt32BE0 sd) totalStake
      in case selectLeader_loop seedValue 0 vs of
           Some v \<Rightarrow> Some v
         | None \<Rightarrow> (case vs of [] \<Rightarrow> None | v # _ \<Rightarrow> Some v))"

fun genesis_loop :: "sha256_fn \<Rightarrow> digest \<Rightarrow> ValidatorInfo list \<Rightarrow> nat list \<Rightarrow> error + string list" where
  "genesis_loop sha h vs [] = Inr []"
| "genesis_loop sha h vs (sl # rest) =
     (let slotSeed = sha (digest_bytes h @ toString (int sl))
      in case selectLeaderByStake vs slotSeed of
           None \<Rightarrow> Inl TypeError
         | Some ld \<Rightarrow>
             (case genesis_loop sha h vs rest of
                Inl e \<Rightarrow> Inl e
              | Inr sched \<Rightarrow> Inr (publicKey ld # sched)))"

definition generateLeaderSchedule ::
  "sha256_fn \<Rightarrow> (string \<Rightarrow> string \<Rightarrow> int) \<Rightarrow> Consensus \<Rightarrow> int \<Rightarrow> string \<Rightarrow> error + string list" where
  "generateLeaderSchedule sha localeCompare s ep sd =
     (let activeValidators = getActiveValidators s
      in if length activeValidators = 0 then Inr []
         else
           let sortedValidators =
                 sort_by (\<lambda>a b. localeCompare (publicKey a) (publicKey b)) activeValidators
           in if ep > 0 then generateEqualDistributionSchedule sha sortedValidators sd
              else genesis_loop sha (sha sd) sortedValidators [0..<nat SLOTS_PER_EPOCH])"

definition calculateEpochFinalHash :: "sha256_fn \<Rightarrow> Consensus \<Rightarrow> int \<Rightarrow> string" where
  "calculateEpochFinalHash sha s ep =
     (let blocks = (case map_of (epochBlocks s) ep of None \<Rightarrow> [] | Some bs \<Rightarrow> bs)
      in if length blocks = 0
         then digest_hex (sha (''epoch-'' @ toString ep @ ''-empty''))
         else digest_hex (sha (concat (map hash blocks))))"

definition transitionToNextEpoch ::
  "sha256_fn \<Rightarrow> (string \<Rightarrow> string \<Rightarrow> int) \<Rightarrow> Consensus \<Rightarrow> error + Consensus" where
  "transitionToNextEpoch sha localeCompare s =
     (let curEpoch = currentEpoch s;
          nextEpoch = curEpoch + 1;
          finalHash = calculateEpochFinalHash sha s curEpoch;
          s1 = s\<lparr> epochFinalHash := Some finalHash \<rparr>
      in case generateLeaderSchedule sha localeCompare s1 nextEpoch finalHash of
           Inl e \<Rightarrow> Inl e
         | Inr nextSchedule \<Rightarrow>
             Inr (s1\<lparr> leaderSchedules :=
                         AList.update nextEpoch
                           \<lparr> ls_epoch = nextEpoch, schedule = nextSchedule, seed = finalHash \<rparr>
                           (leaderSchedules s1),
                       currentEpoch := nextEpoch,
                       epochStartSlot := currentSlot s1,
                       leaderSchedule := nextSchedule,
                       epochBlocks := AList.update nextEpoch [] (epochBlocks s1) \<rparr>))"

definition updateSlot ::
  "sha256_fn \<Rightarrow> (string \<Rightarrow> string \<Rightarrow> int) \<Rightarrow> Consensus \<Rightarrow> int \<Rightarrow> error + Consensus" where
  "updateSlot sha localeCompare s sl =
     (let previousEpoch = currentEpoch s;
          newEpoch = getEpochFromSlot sl;
          s1 = s\<lparr> currentSlot := sl \<rparr>
      in if newEpoch > previousEpoch
         then (case transitionToNextEpoch sha localeCompare s1 of
                 Inl e \<Rightarrow> Inl e
               | Inr s2 \<Rightarrow> Inr (cleanupExpiredLockouts s2))
         else Inr (cleanupExpiredLockouts s1))"

section \<open>Proof of History (class ProofOfHistory)\<close>

datatype PohEventType = Ev_transaction | Ev_vote | Ev_block

record PohEvent =
  ev_type :: PohEventType
  ev_data :: string
  ev_hash :: string

record PohEntry =
  poh_hash :: string
  poh_count :: int
  poh_timestamp :: int
  events :: "PohEvent list option"

text \<open>The hash input of an entry: the predecessor's hash, the predecessor's count in
  decimal and, when the entry has events, their hashes joined.\<close>

definition expectedHashInput :: "PohEntry \<Rightarrow> PohEntry \<Rightarrow> string" where
  "expectedHashInput prev current =
     (let inp = poh_hash prev @ toString (poh_count prev)
      in case events current of
           None \<Rightarrow> inp
         | Some evs \<Rightarrow> if length evs > 0 then inp @ concat (map ev_hash evs) else inp)"

fun verifySequence_loop :: "sha256_fn \<Rightarrow> PohEntry \<Rightarrow> PohEntry list \<Rightarrow> bool" where
  "verifySequence_loop sha prev [] = True"
| "verifySequence_loop sha prev (current # rest) =
     (if poh_count current \<noteq> poh_count prev + 1 then False
      else
        let expectedHash = digest_hex (sha (expectedHashInput prev current))
        in if poh_hash current \<noteq> expectedHash then False
           else verifySequence_loop sha current rest)"

definition verifySequence :: "sha256_fn \<Rightarrow> PohEntry list \<Rightarrow> bool" where
  "verifySequence sha entries =
     (case entries of [] \<Rightarrow> True | e # rest \<Rightarrow> verifySequence_loop sha e rest)"

text \<open>The clock's \<open>currentHash\<close> and \<open>count\<close>, and \<open>generateNextEntry\<close>, which
  returns the new entry and advances both.  \<open>now\<close> is the value of \<open>Date.now()\<close>.\<close>

record Clock =
  clk_currentHash :: string
  clk_count :: int

definition generateNextEntry ::
  "sha256_fn \<Rightarrow> int \<Rightarrow> Clock \<Rightarrow> PohEvent list option \<Rightarrow> PohEntry \<times> Clock" where
  "generateNextEntry sha now c evs =
     (let hashInput = clk_currentHash c @ toString (clk_count c);
          hashInput' = (case evs of
                          None \<Rightarrow> hashInput
                        | Some es \<Rightarrow> if length es > 0 then hashInput @ concat (map ev_hash es)
                                     else hashInput);
          nextHash = digest_hex (sha hashInput');
          entry = \<lparr> poh_hash = nextHash, poh_count = clk_count c, poh_timestamp = now,
                    events = (case evs of
                                None \<Rightarrow> None
                              | Some es \<Rightarrow> if length es > 0 then Some es else None) \<rparr>
      in (entry, c\<lparr> clk_currentHash := nextHash, clk_count := clk_count c + 1 \<rparr>))"

section \<open>Transactions (class TransactionProcessor)\<close>

record Account =
  acc_publicKey :: string
  balance :: int
  acc_nonce :: int

record TransactionProcessor =
  accounts :: "(string \<times> Account) list"
  transactionPool :: "Transaction list"
  processedTransactions :: "string list"

definition getTransactionId :: "Transaction \<Rightarrow> string" where
  "getTransactionId t =
     tx_from t @ ''-'' @ tx_to t @ ''-'' @ toString (tx_nonce t) @ ''-'' @ toString (tx_timestamp t)"

text \<open>\<open>JSON.stringify\<close> of the signed fields of a transaction is a parameter.\<close>

definition validateTransaction ::
  "sha256_fn \<Rightarrow> (string \<times> string \<times> int \<times> int \<times> int \<times> int \<Rightarrow> string) \<Rightarrow>
   TransactionProcessor \<Rightarrow> Transaction \<Rightarrow> bool" where
  "validateTransaction sha stringify p t =
     (if getTransactionId t \<in> set (processedTransactions p) then False
      else case map_of (accounts p) (tx_from t) of
             None \<Rightarrow> False
           | Some fromAccount \<Rightarrow>
               if balance fromAccount < amount t + fee t then False
               else if tx_nonce t \<noteq> acc_nonce fromAccount + 1 then False
               else
                 let transactionData =
                       (tx_from t, tx_to t, amount t, fee t, tx_timestamp t, tx_nonce t)
                 in verifySignature sha (stringify transactionData) (tx_signature t) (tx_from t))"

section \<open>Blocks (class BlockProducer)\<close>

record BlockProducer =
  blockchain :: "Block list"
  maxTransactionsPerBlock :: int

text \<open>The fields of a block that are hashed, in the order of the object literal.\<close>

record BlockData =
  bd_previousHash :: string
  bd_pohHash :: string
  bd_pohCount :: int
  bd_transactions :: "Transaction list"
  bd_timestamp :: int
  bd_leader :: string
  bd_slot :: int
  bd_epoch :: int

text \<open>\<open>Array.prototype.slice(0, e)\<close>: a negative end counts from the end of the
  array.\<close>

definition slice0 :: "'a list \<Rightarrow> int \<Rightarrow> 'a list" where
  "slice0 xs e = (if e < 0 then take (nat (int (length xs) + e)) xs else take (nat e) xs)"

definition getLatestBlock :: "BlockProducer \<Rightarrow> Block option" where
  "getLatestBlock bp =
     (if length (blockchain bp) > 0 then Some (blockchain bp ! (length (blockchain bp) - 1))
      else None)"

definition getLatestBlockHash :: "BlockProducer \<Rightarrow> string" where
  "getLatestBlockHash bp =
     (case getLatestBlock bp of Some latestBlock \<Rightarrow> hash latestBlock
      | None \<Rightarrow> replicate 64 CHR ''0'')"

text \<open>\<open>calculateBlockHash\<close>; \<open>JSON.stringify\<close> of the block data is a parameter.\<close>

definition calculateBlockHash :: "sha256_fn \<Rightarrow> (BlockData \<Rightarrow> string) \<Rightarrow> BlockData \<Rightarrow> string" where
  "calculateBlockHash sha stringify blockData = digest_hex (sha (stringify blockData))"

text \<open>\<open>createBlock\<close>.  \<open>now\<close> is the value of \<open>Date.now()\<close>; an absent or empty
  \<open>previousHash\<close> is falsy and replaced by the hash of the latest block.\<close>

definition createBlock ::
  "sha256_fn \<Rightarrow> (BlockData \<Rightarrow> string) \<Rightarrow> int \<Rightarrow> BlockProducer \<Rightarrow> Transaction list \<Rightarrow>
   string \<Rightarrow> int \<Rightarrow> string \<Rightarrow> string \<Rightarrow> int \<Rightarrow> int \<Rightarrow> string option \<Rightarrow> Block" where
  "createBlock sha stringify now bp txs ph pc ld privateKey sl ep prevHash =
     (let limitedTransactions = slice0 txs (maxTransactionsPerBlock bp);
          blockData =
            \<lparr> bd_previousHash =
                (case prevHash of
                   None \<Rightarrow> getLatestBlockHash bp
                 | Some h \<Rightarrow> if h = [] then getLatestBlockHash bp else h),
              bd_pohHash = ph, bd_pohCount = pc, bd_transactions = limitedTransactions,
              bd_timestamp = now, bd_leader = ld, bd_slot = sl, bd_epoch = ep \<rparr>;
          h = calculateBlockHash sha stringify blockData;
          sig = signMessage sha h privateKey
      in \<lparr> hash = h, previousHash = bd_previousHash blockData, pohHash = ph, pohCount = pc,
           transactions = limitedTransactions, timestamp = now, leader = ld,
           signature = sig, slot = sl, epoch = ep \<rparr>)"

definition validateBlock :: "sha256_fn \<Rightarrow> (BlockData \<Rightarrow> string) \<Rightarrow> BlockProducer \<Rightarrow> Block \<Rightarrow> bool" where
  "validateBlock sha stringify bp blk =
     (let expectedHash = calculateBlockHash sha stringify
            \<lparr> bd_previousHash = previousHash blk, bd_pohHash = pohHash blk,
              bd_pohCount = pohCount blk, bd_transactions = transactions blk,
              bd_timestamp = timestamp blk, bd_leader = leader blk,
              bd_slot = slot blk, bd_epoch = epoch blk \<rparr>
      in if hash blk \<noteq> expectedHash then False
         else if \<not> verifySignature sha (hash blk) (signature blk) (leader blk) then False
         else if length (blockchain bp) > 0 \<and>
                 (case getLatestBlock bp of None \<Rightarrow> False
                  | Some latestBlock \<Rightarrow> previousHash blk \<noteq> hash latestBlock) then False
         else if int (length (transactions blk)) > maxTransactionsPerBlock bp then False
         else True)"


section \<open>Invariant of the consensus engine\<close>

text \<open>
  What the association lists owe to being JavaScript maps (no key twice), together
  with two facts the methods maintain: the vote list of a block holds at most one vote
  of each validator, and every registered validator has a lockout table.
\<close>

definition consensus_inv :: "Consensus \<Rightarrow> bool" where
  "consensus_inv s \<longleftrightarrow>
     distinct (map fst (validators s)) \<and>
     distinct (map fst (lockouts s)) \<and>
     distinct (map fst (votes s)) \<and>
     distinct (map fst (leaderSchedules s)) \<and>
     distinct (map fst (epochBlocks s)) \<and>
     list_all (\<lambda>(k, table). distinct (map fst table)) (lockouts s) \<and>
     list_all (\<lambda>(bh, vs). distinct (map validator vs)) (votes s) \<and>
     set (map fst (validators s)) \<subseteq> set (map fst (lockouts s))"

text \<open>The states the public methods can produce from a new engine.\<close>

inductive reachable :: "sha256_fn \<Rightarrow> (string \<Rightarrow> string \<Rightarrow> int) \<Rightarrow> Consensus \<Rightarrow> bool"
  for sha :: sha256_fn and localeCompare :: "string \<Rightarrow> string \<Rightarrow> int" where
  r_initial: "reachable sha localeCompare initial"
| r_addValidator: "reachable sha localeCompare s \<Longrightarrow> reachable sha localeCompare (addValidator s v)"
| r_removeValidator: "reachable sha localeCompare s \<Longrightarrow> reachable sha localeCompare (removeValidator s pk)"
| r_addVote: "reachable sha localeCompare s \<Longrightarrow> reachable sha localeCompare (snd (addVote s vt))"
| r_addBlock: "reachable sha localeCompare s \<Longrightarrow> reachable sha localeCompare (addBlock s blk)"
| r_updateSlot: "reachable sha localeCompare s \<Longrightarrow> updateSlot sha localeCompare s sl = Inr s'
     \<Longrightarrow> reachable sha localeCompare s'"

section \<open>Quantities the specification speaks of\<close>

text \<open>The stake a public key contributes: the stake of the registered validator with
  that key when it is active, nothing otherwise.\<close>

definition active_stake_of :: "Consensus \<Rightarrow> string \<Rightarrow> int" where
  "active_stake_of s k =
     (case map_of (validators s) k of
        None \<Rightarrow> 0
      | Some v \<Rightarrow> if isActive v then stake v else 0)"

text \<open>The summed stake of the active validators that hold a recorded vote for a block
  hash, and the total active stake.\<close>

definition voting_stake :: "Consensus \<Rightarrow> string \<Rightarrow> int" where
  "voting_stake s bh = (\<Sum>k \<in> validator ` set (getVotesForBlock s bh). active_stake_of s k)"

definition total_active_stake :: "Consensus \<Rightarrow> int" where
  "total_active_stake s = (\<Sum>k \<in> fst ` set (validators s). active_stake_of s k)"



text \<open>The weight of a candidate block, and the first candidate of greatest weight.\<close>

definition weight :: "Consensus \<Rightarrow> Block \<Rightarrow> int" where
  "weight s b = calculateStakeWeight s (hash b)"

definition first_heaviest :: "Consensus \<Rightarrow> Block list \<Rightarrow> Block option" where
  "first_heaviest s cands = find (\<lambda>b. weight s b = Max (weight s ` set cands)) cands"

text \<open>The array \<open>blockVotes\<close> after the write of \<open>addVote\<close>: the vote replaces the
  first stored vote of the same validator, or is pushed at the end.\<close>

definition recorded :: "Vote list \<Rightarrow> Vote \<Rightarrow> Vote list" where
  "recorded old vt =
     (if \<exists>v \<in> set old. validator v = validator vt
      then old[nat (findIndex (\<lambda>v. validator v = validator vt) old) := vt]
      else old @ [vt])"

text \<open>The previous hash that \<open>createBlock\<close> writes into the block.\<close>

definition linkHash :: "BlockProducer \<Rightarrow> string option \<Rightarrow> string" where
  "linkHash bp prevHash =
     (case prevHash of
        None \<Rightarrow> getLatestBlockHash bp
      | Some h \<Rightarrow> if h = [] then getLatestBlockHash bp else h)"

text \<open>Sixteen rotations of four slots over a shuffled list.\<close>

definition rotation_schedule :: "ValidatorInfo list \<Rightarrow> string list" where
  "rotation_schedule shuffled =
     concat (map (\<lambda>rotation. replicate 4 (publicKey (shuffled ! (rotation mod length shuffled))))
                 [0..<16])"

text \<open>The engine after \<open>transitionToNextEpoch\<close> has stored a schedule.\<close>

definition transitioned :: "sha256_fn \<Rightarrow> Consensus \<Rightarrow> string list \<Rightarrow> Consensus" where
  "transitioned sha s sched =
     s\<lparr> epochFinalHash := Some (calculateEpochFinalHash sha s (currentEpoch s)),
        leaderSchedules :=
          AList.update (currentEpoch s + 1)
            \<lparr> ls_epoch = currentEpoch s + 1, schedule = sched,
              seed = calculateEpochFinalHash sha s (currentEpoch s) \<rparr>
            (leaderSchedules s),
        currentEpoch := currentEpoch s + 1,
        epochStartSlot := currentSlot s,
        leaderSchedule := sched,
        epochBlocks := AList.update (currentEpoch s + 1) [] (epochBlocks s) \<rparr>"

text \<open>A stand-in digest function and a stand-in collation, used only to run the
  definitions on concrete inputs; every theorem below holds for all such functions.\<close>

definition sample_sha :: sha256_fn where
  "sample_sha bs = word_of_nat (length bs)"

definition sample_compare :: "string \<Rightarrow> string \<Rightarrow> int" where
  "sample_compare a b = int (length a) - int (length b)"


text \<open>Concrete inputs on which the theorems are run.  \<open>leader_key\<close> is a public key of
  32 bytes in hexadecimal; a signature has the same form.\<close>

definition leader_key :: string where
  "leader_key = ''aaaaaaaaaaaaaaaaaaaaaaaaaaaaaaaaaaaaaaaaaaaaaaaaaaaaaaaaaaaaaaaa''"

definition validator1 :: ValidatorInfo where
  "validator1 = \<lparr> publicKey = ''v1'', stake = 10, address = ''127.0.0.1'', port = 8001, isActive = True \<rparr>"

definition locked_state :: Consensus where
  "locked_state =
     initial\<lparr> validators := [(''v1'', validator1)],
              lockouts := [(''v1'', [(4, 6), (5, 9)])],
              currentSlot := 5 \<rparr>"

definition vote1 :: Vote where
  "vote1 = \<lparr> validator = ''v1'', blockHash = ''b1'', vote_timestamp = 0,
             vote_signature = ''sig'', lockout = 2 \<rparr>"

definition account1 :: Account where
  "account1 = \<lparr> acc_publicKey = leader_key, balance = 100, acc_nonce = 0 \<rparr>"

definition processor1 :: TransactionProcessor where
  "processor1 =
     \<lparr> accounts = [(leader_key, account1)], transactionPool = [], processedTransactions = [] \<rparr>"

definition tx1 :: Transaction where
  "tx1 = \<lparr> tx_from = leader_key, tx_to = ''bob'', amount = 1, fee = 1,
           tx_signature = leader_key, tx_timestamp = 0, tx_nonce = 5 \<rparr>"

definition vote1_old :: Vote where
  "vote1_old = \<lparr> validator = ''v1'', blockHash = ''b1'', vote_timestamp = 0,
                 vote_signature = ''old'', lockout = 1 \<rparr>"

definition validator2 :: ValidatorInfo where
  "validator2 = \<lparr> publicKey = ''v2'', stake = 10, address = ''127.0.0.1'', port = 8002, isActive = True \<rparr>"

definition validator3 :: ValidatorInfo where
  "validator3 = \<lparr> publicKey = ''v3'', stake = 10, address = ''127.0.0.1'', port = 8003, isActive = True \<rparr>"

definition vote2 :: Vote where
  "vote2 = \<lparr> validator = ''v2'', blockHash = ''b1'', vote_timestamp = 0,
             vote_signature = ''sig'', lockout = 1 \<rparr>"

definition vote3 :: Vote where
  "vote3 = \<lparr> validator = ''v3'', blockHash = ''b2'', vote_timestamp = 0,
             vote_signature = ''sig'', lockout = 1 \<rparr>"

text \<open>An engine at slot 5 in which \<open>v1\<close> has already voted for \<open>b1\<close>, and one with
  three validators of equal stake, two of which have voted for \<open>b1\<close> and all three
  for \<open>b2\<close>.\<close>

definition voting_state :: Consensus where
  "voting_state =
     initial\<lparr> validators := [(''v1'', validator1)],
              lockouts := [(''v1'', [])],
              votes := [(''b1'', [vote1_old])],
              currentSlot := 5 \<rparr>"

definition stake_state :: Consensus where
  "stake_state =
     initial\<lparr> validators := [(''v1'', validator1), (''v2'', validator2), (''v3'', validator3)],
              lockouts := [(''v1'', []), (''v2'', []), (''v3'', [])],
              votes := [(''b1'', [vote1, vote2]),
                        (''b2'', [vote1\<lparr> blockHash := ''b2'' \<rparr>, vote2\<lparr> blockHash := ''b2'' \<rparr>, vote3])] \<rparr>"

text \<open>Two validators whose stakes add up to \<open>2 ^ 53 - 1\<close>, the greatest integer
  below which every integer is a double; the first one has voted for \<open>b1\<close>.\<close>

definition large_validator1 :: ValidatorInfo where
  "large_validator1 = \<lparr> publicKey = ''v1'', stake = 6004799503160661, address = ''127.0.0.1'',
                          port = 8001, isActive = True \<rparr>"

definition large_validator2 :: ValidatorInfo where
  "large_validator2 = \<lparr> publicKey = ''v2'', stake = 3002399751580330, address = ''127.0.0.1'',
                          port = 8002, isActive = True \<rparr>"

definition large_state :: Consensus where
  "large_state =
     initial\<lparr> validators := [(''v1'', large_validator1), (''v2'', large_validator2)],
              lockouts := [(''v1'', []), (''v2'', [])],
              votes := [(''b1'', [vote1])] \<rparr>"

text \<open>Seventeen active validators, named by one letter each.\<close>

definition crowded_state :: Consensus where
  "crowded_state =
     initial\<lparr> validators :=
                map (\<lambda>c. ([c], \<lparr> publicKey = [c], stake = 1, address = ''127.0.0.1'',
                                  port = 8000, isActive = True \<rparr>))
                    ''abcdefghijklmnopq'',
              lockouts := map (\<lambda>c. ([c], [])) ''abcdefghijklmnopq'' \<rparr>"

text \<open>Blocks that differ in their hash.\<close>

definition block_with_hash :: "string \<Rightarrow> Block" where
  "block_with_hash h =
     \<lparr> hash = h, previousHash = replicate 64 CHR ''0'', pohHash = ''p'', pohCount = 0,
       transactions = [], timestamp = 0, leader = leader_key, signature = ''s'',
       slot = 1, epoch = 0 \<rparr>"

definition producer1 :: BlockProducer where
  "producer1 = \<lparr> blockchain = [block_with_hash ''tip''], maxTransactionsPerBlock = 100 \<rparr>"



text \<open>A block of slot 64, the first slot of epoch 1, and the engine that has
  one validator and has been given this block while its stored epoch is still 0.\<close>

definition block64 :: Block where
  "block64 = (block_with_hash ''b64'')\<lparr> slot := 64, epoch := 1 \<rparr>"

definition early_state :: Consensus where
  "early_state = addBlock (addValidator initial validator1) block64"

section \<open>Lockouts and voting\<close>

lemma canVote_loop_iff:
  "canVote_loop cur table \<longleftrightarrow> (\<forall>(sl, expiry) \<in> set table. expiry \<le> cur + 2)"
  by (induction cur table rule: canVote_loop.induct) auto

lemma canVote_iff:
  "canVote s v bh \<longleftrightarrow>
     (\<forall>table. map_of (lockouts s) v = Some table \<longrightarrow>
        (\<forall>(sl, expiry) \<in> set table. expiry \<le> currentSlot s + 2))"
  by (cases "map_of (lockouts s) v") (auto simp: canVote_def canVote_loop_iff)

text \<open>
  Claim C4.  \<open>canVote\<close> returns false exactly when the validator holds a lockout entry
  whose expiry slot is more than two slots after the current slot.  A validator with
  no lockout table, with an empty one, or with only entries that have expired or
  expire within two slots of the current slot may vote.  The block hash plays no part.
\<close>

theorem canVote_false_iff:
  "(canVote s v bh = False \<longleftrightarrow>
      (\<exists>table. map_of (lockouts s) v = Some table \<and>
               (\<exists>(sl, expiry) \<in> set table. expiry > currentSlot s + 2))) \<and>
   (map_of (lockouts s) v = None \<longrightarrow> canVote s v bh) \<and>
   (map_of (lockouts s) v = Some [] \<longrightarrow> canVote s v bh) \<and>
   (\<forall>table. map_of (lockouts s) v = Some table \<and>
             (\<forall>(sl, expiry) \<in> set table. expiry \<le> currentSlot s \<or> expiry - currentSlot s \<le> 2)
      \<longrightarrow> canVote s v bh)"
proof (intro conjI)
  show "canVote s v bh = False \<longleftrightarrow>
      (\<exists>table. map_of (lockouts s) v = Some table \<and>
               (\<exists>(sl, expiry) \<in> set table. expiry > currentSlot s + 2))"
    unfolding canVote_iff by fastforce
  show "map_of (lockouts s) v = None \<longrightarrow> canVote s v bh"
    by (simp add: canVote_iff)
  show "map_of (lockouts s) v = Some [] \<longrightarrow> canVote s v bh"
    by (simp add: canVote_iff)
  show "\<forall>table. map_of (lockouts s) v = Some table \<and>
             (\<forall>(sl, expiry) \<in> set table. expiry \<le> currentSlot s \<or> expiry - currentSlot s \<le> 2)
      \<longrightarrow> canVote s v bh"
    unfolding canVote_iff by fastforce
qed

text \<open>At slot 5 the entry expiring at slot 9 blocks the vote; at slot 7 it no longer
  does.\<close>

theorem canVote_false_iff_witness:
  "(\<exists>table. map_of (lockouts locked_state) ''v1'' = Some table \<and>
            (\<exists>(sl, expiry) \<in> set table. expiry > currentSlot locked_state + 2)) \<and>
   canVote locked_state ''v1'' ''b1'' = False \<and>
   canVote (locked_state\<lparr> currentSlot := 7 \<rparr>) ''v1'' ''b1''"
  using canVote_false_iff [of locked_state "''v1''" "''b1''"]
        canVote_false_iff [of "locked_state\<lparr> currentSlot := 7 \<rparr>" "''v1''" "''b1''"]
  by (simp add: locked_state_def initial_def)

text \<open>
  Claim C10.  When \<open>addVote\<close> returns false, the engine after the call is the engine
  before it: no vote list and no lockout table has changed.  It returns false only
  when the vote's validator is unknown, is inactive, or is denied by \<open>canVote\<close>.
\<close>

theorem addVote_rejected_unchanged:
  "fst (addVote s vt) = False \<Longrightarrow>
     snd (addVote s vt) = s \<and>
     (map_of (validators s) (validator vt) = None \<or>
      (\<exists>v. map_of (validators s) (validator vt) = Some v \<and> \<not> isActive v) \<or>
      \<not> canVote s (validator vt) (blockHash vt))"
  by (auto simp: addVote_def Let_def validateVoteSync_def split: if_splits option.splits)

theorem addVote_rejected_unchanged_witness:
  "fst (addVote locked_state vote1) = False \<and> snd (addVote locked_state vote1) = locked_state \<and>
   fst (addVote initial vote1) = False \<and> snd (addVote initial vote1) = initial"
proof -
  have a: "fst (addVote locked_state vote1) = False"
    by (simp add: addVote_def validateVoteSync_def canVote_def locked_state_def initial_def
        vote1_def validator1_def)
  have b: "fst (addVote initial vote1) = False"
    by (simp add: addVote_def validateVoteSync_def initial_def vote1_def)
  show ?thesis
    using a b addVote_rejected_unchanged [OF a] addVote_rejected_unchanged [OF b] by simp
qed

section \<open>Transaction validation\<close>

text \<open>
  Claim C9.  When the sender's account exists and the transaction's nonce is not the
  account's stored nonce plus one, \<open>validateTransaction\<close> returns false, whatever the
  signature is.
\<close>

theorem validateTransaction_nonce:
  "map_of (accounts p) (tx_from t) = Some a \<Longrightarrow> tx_nonce t \<noteq> acc_nonce a + 1 \<Longrightarrow>
     validateTransaction sha stringify p t = False"
  by (simp add: validateTransaction_def)

text \<open>A transaction with enough balance and a well-formed signature is rejected with
  nonce 5 and accepted with nonce 1, the stored nonce being 0.\<close>

theorem validateTransaction_nonce_witness:
  "map_of (accounts processor1) (tx_from tx1) = Some account1 \<and>
   tx_nonce tx1 \<noteq> acc_nonce account1 + 1 \<and>
   validateTransaction sample_sha (\<lambda>_. ''json'') processor1 tx1 = False \<and>
   validateTransaction sample_sha (\<lambda>_. ''json'') processor1 (tx1\<lparr> tx_nonce := 1 \<rparr>) = True"
proof -
  have a: "map_of (accounts processor1) (tx_from tx1) = Some account1"
    by (simp add: processor1_def tx1_def)
  have b: "tx_nonce tx1 \<noteq> acc_nonce account1 + 1"
    by (simp add: tx1_def account1_def)
  have k: "length (hexDecode leader_key) = 32"
    by (simp add: leader_key_def unhex_def)
  have c: "validateTransaction sample_sha (\<lambda>_. ''json'') processor1 (tx1\<lparr> tx_nonce := 1 \<rparr>)"
    by (simp add: validateTransaction_def processor1_def tx1_def account1_def getTransactionId_def
        verifySignature_def KeyPair_verify_def k)
  show ?thesis
    using a b c validateTransaction_nonce [OF a b, of sample_sha "\<lambda>_. ''json''"] by simp
qed

section \<open>Maps, vote lists and the invariant\<close>


lemma set_update_subset: "set (AList.update k v al) \<subseteq> insert (k, v) (set al)"
  by (induction al) auto

lemma list_all_update:
  "P (k, v) \<Longrightarrow> list_all P al \<Longrightarrow> list_all P (AList.update k v al)"
  using set_update_subset [of k v al] by (auto simp: list_all_iff)

lemma list_all_delete: "list_all P al \<Longrightarrow> list_all P (AList.delete k al)"
  by (auto simp: list_all_iff AList.delete_eq)

lemma findIndex_neg_iff: "findIndex P xs < 0 \<longleftrightarrow> (\<forall>x \<in> set xs. \<not> P x)"
  by (induction xs) (auto simp: Let_def)

lemma findIndex_found:
  "findIndex P xs \<ge> 0 \<Longrightarrow> nat (findIndex P xs) < length xs \<and> P (xs ! nat (findIndex P xs))"
proof (induction xs)
  case Nil
  then show ?case by simp
next
  case (Cons x xs)
  show ?case
  proof (cases "P x")
    case True
    then show ?thesis by simp
  next
    case False
    with Cons.prems have ge: "findIndex P xs \<ge> 0"
      by (auto simp: Let_def split: if_splits)
    from Cons.IH [OF ge] False ge show ?thesis
      by (auto simp: Let_def nat_add_distrib)
  qed
qed

lemma filter_key_single:
  "distinct (map f zs) \<Longrightarrow> y \<in> set zs \<Longrightarrow> filter (\<lambda>x. f x = f y) zs = [y]"
proof (induction zs)
  case Nil
  then show ?case by simp
next
  case (Cons z zs)
  show ?case
  proof (cases "z = y")
    case True
    with Cons.prems have "f y \<notin> f ` set zs" by simp
    then have "\<forall>x \<in> set zs. f x \<noteq> f y" by (metis imageI)
    then have "filter (\<lambda>x. f x = f y) zs = []" by (simp add: filter_empty_conv)
    with True show ?thesis by simp
  next
    case False
    with Cons.prems have y: "y \<in> set zs" and d: "distinct (map f zs)" by auto
    from Cons.prems have "f z \<notin> f ` set zs" by simp
    with y have "f z \<noteq> f y" by (metis imageI)
    with Cons.IH [OF d y] show ?thesis by simp
  qed
qed

lemma map_update_same_key:
  "i < length xs \<Longrightarrow> f y = f (xs ! i) \<Longrightarrow> map f (xs[i := y]) = map f xs"
  by (simp add: map_update list_update_same_conv)

lemma addVote_accepted_eq:
  assumes "validateVoteSync s vt"
  shows "addVote s vt =
     (True, updateLockout
        (s\<lparr> votes := AList.update (blockHash vt)
                        (recorded (getVotesForBlock s (blockHash vt)) vt) (votes s) \<rparr>)
        (validator vt) (blockHash vt) (lockout vt))"
proof (cases "map_of (votes s) (blockHash vt)")
  case None
  with assms show ?thesis
    by (simp add: addVote_def Let_def update_conv' recorded_def getVotesForBlock_def)
next
  case (Some old)
  have "findIndex (\<lambda>v. validator v = validator vt) old \<ge> 0 \<longleftrightarrow>
        (\<exists>v \<in> set old. validator v = validator vt)"
    using findIndex_neg_iff [of "\<lambda>v. validator v = validator vt" old] by auto
  with Some assms show ?thesis
    by (simp add: addVote_def Let_def recorded_def getVotesForBlock_def)
qed

lemma recorded_distinct:
  assumes "distinct (map validator old)"
  shows "distinct (map validator (recorded old vt))"
proof (cases "\<exists>v \<in> set old. validator v = validator vt")
  case True
  then have "findIndex (\<lambda>v. validator v = validator vt) old \<ge> 0"
    using findIndex_neg_iff [of "\<lambda>v. validator v = validator vt" old] by auto
  from findIndex_found [OF this] assms True show ?thesis
    by (simp add: recorded_def map_update_same_key)
next
  case False
  with assms show ?thesis by (auto simp: recorded_def)
qed

lemma recorded_mem: "vt \<in> set (recorded old vt)"
proof (cases "\<exists>v \<in> set old. validator v = validator vt")
  case True
  then have "findIndex (\<lambda>v. validator v = validator vt) old \<ge> 0"
    using findIndex_neg_iff [of "\<lambda>v. validator v = validator vt" old] by auto
  from findIndex_found [OF this] True show ?thesis
    by (simp add: recorded_def set_update_memI)
next
  case False
  then show ?thesis by (simp add: recorded_def)
qed

lemma recorded_others:
  "filter (\<lambda>v. validator v \<noteq> validator vt) (recorded old vt) =
   filter (\<lambda>v. validator v \<noteq> validator vt) old"
proof (cases "\<exists>v \<in> set old. validator v = validator vt")
  case True
  then have ge: "findIndex (\<lambda>v. validator v = validator vt) old \<ge> 0"
    using findIndex_neg_iff [of "\<lambda>v. validator v = validator vt" old] by auto
  have upd: "\<And>i (xs :: Vote list). i < length xs \<Longrightarrow> validator (xs ! i) = validator vt \<Longrightarrow>
     filter (\<lambda>v. validator v \<noteq> validator vt) (xs[i := vt]) =
     filter (\<lambda>v. validator v \<noteq> validator vt) xs"
  proof -
    fix i and xs :: "Vote list"
    show "i < length xs \<Longrightarrow> validator (xs ! i) = validator vt \<Longrightarrow>
     filter (\<lambda>v. validator v \<noteq> validator vt) (xs[i := vt]) =
     filter (\<lambda>v. validator v \<noteq> validator vt) xs"
      by (induction xs arbitrary: i) (auto split: nat.splits)
  qed
  from findIndex_found [OF ge] True show ?thesis
    by (simp add: recorded_def upd)
next
  case False
  then show ?thesis by (simp add: recorded_def)
qed

lemma recorded_length:
  "length (recorded old vt) =
     (if \<exists>v \<in> set old. validator v = validator vt then length old else length old + 1)"
  by (simp add: recorded_def)


lemma fold_delete_filter:
  "fold AList.delete ks table = filter (\<lambda>(k, v). k \<notin> set ks) table"
proof (induction ks arbitrary: table)
  case Nil
  then show ?case by simp
next
  case (Cons k ks)
  have "filter (\<lambda>(k', v). k' \<notin> set ks) (AList.delete k table) =
        filter (\<lambda>(k', v). k' \<notin> set (k # ks)) table"
    by (induction table) (auto simp: AList.delete_eq)
  with Cons.IH [of "AList.delete k table"] show ?case by simp
qed

lemma cleanupTable_filter:
  assumes "distinct (map fst table)"
  shows "cleanupTable cur table = filter (\<lambda>(sl, expiry). \<not> cur \<ge> expiry) table"
proof -
  let ?ks = "map fst (filter (\<lambda>(sl, expiry). cur \<ge> expiry) table)"
  have "(k \<notin> set ?ks) = (\<not> cur \<ge> v)" if kv: "(k, v) \<in> set table" for k v
  proof
    assume "k \<notin> set ?ks"
    with kv show "\<not> cur \<ge> v" by force
  next
    assume nv: "\<not> cur \<ge> v"
    show "k \<notin> set ?ks"
    proof
      assume "k \<in> set ?ks"
      then obtain v' where v': "(k, v') \<in> set table" "cur \<ge> v'" by auto
      from eq_key_imp_eq_value [OF assms kv v'(1)] v'(2) nv show False by simp
    qed
  qed
  then have "filter (\<lambda>(k, v). k \<notin> set ?ks) table = filter (\<lambda>(sl, expiry). \<not> cur \<ge> expiry) table"
    by (intro filter_cong) auto
  then show ?thesis by (simp add: cleanupTable_def fold_delete_filter)
qed

lemma cleanupTable_distinct:
  "distinct (map fst table) \<Longrightarrow> distinct (map fst (cleanupTable cur table))"
  by (simp add: cleanupTable_filter distinct_map_filter)

lemma inv_initial: "consensus_inv initial"
  by (simp add: consensus_inv_def initial_def)

lemma inv_addValidator:
  assumes "consensus_inv s"
  shows "consensus_inv (addValidator s v)"
proof -
  let ?k = "publicKey v"
  let ?lk = "if map_of (lockouts s) ?k = None then AList.update ?k [] (lockouts s) else lockouts s"
  have eq: "addValidator s v =
      s\<lparr> validators := AList.update ?k v (validators s), lockouts := ?lk \<rparr>"
    by (simp add: addValidator_def Let_def)
  have d: "distinct (map fst ?lk)"
    using assms by (simp add: consensus_inv_def distinct_update)
  have t: "list_all (\<lambda>(k, table). distinct (map fst table)) ?lk"
    using assms by (simp add: consensus_inv_def list_all_update)
  have here: "?k \<in> fst ` set ?lk"
    by (auto simp: dom_update map_of_eq_None_iff)
  have mono: "fst ` set (lockouts s) \<subseteq> fst ` set ?lk"
    by (auto simp: dom_update)
  have sub: "fst ` set (validators s) \<subseteq> fst ` set (lockouts s)"
    using assms by (simp add: consensus_inv_def)
  have r: "fst ` set (AList.update ?k v (validators s)) \<subseteq> fst ` set ?lk"
    unfolding dom_update [of ?k v] using here mono sub by blast
  from assms d t r show ?thesis
    unfolding eq by (simp add: consensus_inv_def distinct_update)
qed

lemma inv_removeValidator:
  assumes "consensus_inv s"
  shows "consensus_inv (removeValidator s pk)"
proof -
  have "set (map fst (AList.delete pk (validators s))) \<subseteq>
        set (map fst (AList.delete pk (lockouts s)))"
    using assms unfolding delete_keys consensus_inv_def by auto
  with assms show ?thesis
    by (simp add: consensus_inv_def removeValidator_def distinct_delete list_all_delete)
qed

lemma inv_updateLockout:
  assumes "consensus_inv s"
  shows "consensus_inv (updateLockout s k bh lk)"
proof (cases "map_of (lockouts s) k")
  case None
  with assms show ?thesis by (simp add: updateLockout_def)
next
  case (Some table)
  let ?t' = "AList.update (currentSlot s) (currentSlot s + lk) table"
  have "(k, table) \<in> set (lockouts s)"
    using Some by (rule map_of_SomeD)
  with assms have "distinct (map fst table)"
    by (auto simp: consensus_inv_def list_all_iff)
  then have dt: "distinct (map fst ?t')" by (rule distinct_update)
  with assms have t: "list_all (\<lambda>(k, table). distinct (map fst table))
       (AList.update k ?t' (lockouts s))"
    by (intro list_all_update) (auto simp: consensus_inv_def)
  have r: "fst ` set (validators s) \<subseteq> fst ` set (AList.update k ?t' (lockouts s))"
    using assms unfolding dom_update consensus_inv_def by auto
  from assms Some t r show ?thesis
    by (simp add: updateLockout_def consensus_inv_def distinct_update)
qed

lemma getVotesForBlock_distinct:
  assumes "consensus_inv s"
  shows "distinct (map validator (getVotesForBlock s bh))"
proof (cases "map_of (votes s) bh")
  case None
  then show ?thesis by (simp add: getVotesForBlock_def)
next
  case (Some vs)
  then have "(bh, vs) \<in> set (votes s)" by (rule map_of_SomeD)
  with assms Some show ?thesis
    by (auto simp: consensus_inv_def list_all_iff getVotesForBlock_def)
qed

lemma inv_addVote:
  assumes "consensus_inv s"
  shows "consensus_inv (snd (addVote s vt))"
proof (cases "validateVoteSync s vt")
  case False
  with assms show ?thesis by (simp add: addVote_def)
next
  case True
  let ?new = "recorded (getVotesForBlock s (blockHash vt)) vt"
  let ?s1 = "s\<lparr> votes := AList.update (blockHash vt) ?new (votes s) \<rparr>"
  have "distinct (map validator ?new)"
    using getVotesForBlock_distinct [OF assms] by (rule recorded_distinct)
  with assms have "list_all (\<lambda>(bh, vs). distinct (map validator vs))
      (AList.update (blockHash vt) ?new (votes s))"
    by (intro list_all_update) (auto simp: consensus_inv_def)
  with assms have "consensus_inv ?s1"
    by (simp add: consensus_inv_def distinct_update)
  then show ?thesis
    by (simp add: addVote_accepted_eq [OF True] inv_updateLockout)
qed

lemma inv_addBlock:
  assumes "consensus_inv s"
  shows "consensus_inv (addBlock s blk)"
  using assms by (simp add: consensus_inv_def addBlock_def Let_def distinct_update)

lemma inv_cleanupExpiredLockouts:
  assumes "consensus_inv s"
  shows "consensus_inv (cleanupExpiredLockouts s)"
proof -
  let ?f = "\<lambda>(validatorKey, table). (validatorKey, cleanupTable (currentSlot s) table)"
  have keys: "map fst (map ?f (lockouts s)) = map fst (lockouts s)"
    by (induction "lockouts s") (auto simp: case_prod_beta)
  have t: "list_all (\<lambda>(k, table). distinct (map fst table)) (map ?f (lockouts s))"
    using assms by (auto simp: consensus_inv_def list_all_iff cleanupTable_distinct)
  from assms t show ?thesis
    unfolding consensus_inv_def cleanupExpiredLockouts_def by (simp add: keys del: map_map)
qed



text \<open>
  Claim C8.  After a vote of validator \<open>v\<close> for block hash \<open>b\<close> that \<open>addVote\<close>
  accepts, the stored vote list of \<open>b\<close> holds exactly one vote of \<open>v\<close>, the accepted
  one; the votes of the other validators are as before; the list has grown by one
  entry only if \<open>v\<close> had no vote for \<open>b\<close> (a later vote replaces the earlier one);
  and the lockout table of \<open>v\<close> is the old one with the current slot mapped to the
  current slot plus the vote's lockout.
\<close>

theorem addVote_accepted:
  assumes inv: "consensus_inv s" and acc: "fst (addVote s vt) = True"
  shows "filter (\<lambda>v. validator v = validator vt)
           (getVotesForBlock (snd (addVote s vt)) (blockHash vt)) = [vt] \<and>
         filter (\<lambda>v. validator v \<noteq> validator vt)
           (getVotesForBlock (snd (addVote s vt)) (blockHash vt)) =
         filter (\<lambda>v. validator v \<noteq> validator vt) (getVotesForBlock s (blockHash vt)) \<and>
         length (getVotesForBlock (snd (addVote s vt)) (blockHash vt)) =
           (if \<exists>v \<in> set (getVotesForBlock s (blockHash vt)). validator v = validator vt
            then length (getVotesForBlock s (blockHash vt))
            else length (getVotesForBlock s (blockHash vt)) + 1) \<and>
         (\<exists>table. map_of (lockouts s) (validator vt) = Some table \<and>
            map_of (lockouts (snd (addVote s vt))) (validator vt) =
              Some (AList.update (currentSlot s) (currentSlot s + lockout vt) table) \<and>
            map_of (AList.update (currentSlot s) (currentSlot s + lockout vt) table) (currentSlot s) =
              Some (currentSlot s + lockout vt))"
proof -
  let ?old = "getVotesForBlock s (blockHash vt)"
  let ?new = "recorded ?old vt"
  let ?s1 = "s\<lparr> votes := AList.update (blockHash vt) ?new (votes s) \<rparr>"
  from acc have ok: "validateVoteSync s vt"
    by (simp add: addVote_def Let_def split: if_splits)
  have res: "snd (addVote s vt) = updateLockout ?s1 (validator vt) (blockHash vt) (lockout vt)"
    by (simp add: addVote_accepted_eq [OF ok])
  have votes': "getVotesForBlock (snd (addVote s vt)) (blockHash vt) = ?new"
    unfolding res by (simp add: getVotesForBlock_def updateLockout_def update_conv' split: option.splits)
  have d: "distinct (map validator ?new)"
    using getVotesForBlock_distinct [OF inv] by (rule recorded_distinct)
  have one: "filter (\<lambda>v. validator v = validator vt) ?new = [vt]"
    using d recorded_mem by (rule filter_key_single)
  from ok obtain v where "map_of (validators s) (validator vt) = Some v"
    by (auto simp: validateVoteSync_def split: option.splits)
  then have "validator vt \<in> fst ` set (validators s)"
    by (metis map_of_eq_None_iff option.distinct(1))
  with inv have "validator vt \<in> fst ` set (lockouts s)"
    by (auto simp: consensus_inv_def)
  then obtain table where table: "map_of (lockouts s) (validator vt) = Some table"
    by (metis map_of_eq_None_iff not_Some_eq)
  have lk: "map_of (lockouts (snd (addVote s vt))) (validator vt) =
      Some (AList.update (currentSlot s) (currentSlot s + lockout vt) table)"
    unfolding res using table by (simp add: updateLockout_def update_conv')
  show ?thesis
    unfolding votes' using one recorded_others recorded_length table lk
    by (simp add: update_conv')
qed

text \<open>In \<open>voting_state\<close> validator \<open>v1\<close> has a stored vote for \<open>b1\<close>; its new vote
  takes the place of the old one.\<close>

theorem addVote_accepted_witness:
  "consensus_inv voting_state \<and> fst (addVote voting_state vote1) = True \<and>
   getVotesForBlock voting_state ''b1'' = [vote1_old] \<and>
   filter (\<lambda>v. validator v = ''v1'') (getVotesForBlock (snd (addVote voting_state vote1)) ''b1'')
     = [vote1] \<and>
   length (getVotesForBlock (snd (addVote voting_state vote1)) ''b1'') = 1 \<and>
   map_of (lockouts (snd (addVote voting_state vote1))) ''v1'' = Some [(5, 7)]"
proof -
  have a: "consensus_inv voting_state"
    by (simp add: consensus_inv_def voting_state_def initial_def vote1_old_def)
  have ok: "validateVoteSync voting_state vote1"
    by (simp add: validateVoteSync_def canVote_def voting_state_def initial_def
        vote1_def validator1_def)
  then have b: "fst (addVote voting_state vote1) = True"
    by (simp add: addVote_accepted_eq)
  have c: "getVotesForBlock voting_state ''b1'' = [vote1_old]"
    by (simp add: getVotesForBlock_def voting_state_def initial_def)
  have d: "map_of (lockouts voting_state) ''v1'' = Some []"
    by (simp add: voting_state_def initial_def)
  have e: "validator vote1_old = ''v1''" "validator vote1 = ''v1''"
    "blockHash vote1 = ''b1''" "lockout vote1 = 2" "currentSlot voting_state = 5"
    by (simp_all add: vote1_def vote1_old_def voting_state_def initial_def)
  from addVote_accepted [OF a b] a b c show ?thesis
    by (simp add: c d e)
qed

section \<open>Stake weight and supermajority\<close>

lemma fold_add_sum_list:
  assumes "\<And>x (t :: int). f x t = t + g x"
  shows "fold f xs a = a + sum_list (map g xs)"
  by (induction xs arbitrary: a) (auto simp: assms)

lemma calculateStakeWeight_sum_list:
  "calculateStakeWeight s bh =
     sum_list (map (active_stake_of s) (map validator (getVotesForBlock s bh)))"
proof -
  have "fold (\<lambda>vt (totalStake :: int).
           case map_of (validators s) (validator vt) of
             None \<Rightarrow> totalStake
           | Some v \<Rightarrow> if isActive v then totalStake + stake v else totalStake)
          (getVotesForBlock s bh) 0 =
        0 + sum_list (map (\<lambda>vt. active_stake_of s (validator vt)) (getVotesForBlock s bh))"
    by (rule fold_add_sum_list) (auto simp: active_stake_of_def split: option.splits)
  then show ?thesis
    by (simp add: calculateStakeWeight_def comp_def)
qed

lemma calculateStakeWeight_voting_stake:
  assumes "consensus_inv s"
  shows "calculateStakeWeight s bh = voting_stake s bh"
  unfolding calculateStakeWeight_sum_list voting_stake_def
  using sum_list_distinct_conv_sum_set [OF getVotesForBlock_distinct [OF assms, of bh], of "active_stake_of s"]
  by simp

lemma getTotalStake_total_active_stake:
  assumes "consensus_inv s"
  shows "getTotalStake s = total_active_stake s"
proof -
  have d: "distinct (map fst (validators s))"
    using assms by (simp add: consensus_inv_def)
  have "fold (\<lambda>v (total :: int). if isActive v then total + stake v else total)
          (map snd (validators s)) 0 =
        0 + sum_list (map (\<lambda>v. if isActive v then stake v else 0) (map snd (validators s)))"
    by (rule fold_add_sum_list) auto
  then have "getTotalStake s =
      sum_list (map (\<lambda>v. if isActive v then stake v else 0) (map snd (validators s)))"
    by (simp add: getTotalStake_def)
  also have "map (\<lambda>v. if isActive v then stake v else 0) (map snd (validators s)) =
      map (active_stake_of s) (map fst (validators s))"
    using d by (auto simp: active_stake_of_def)
  also have "sum_list (map (active_stake_of s) (map fst (validators s))) =
      sum (active_stake_of s) (set (map fst (validators s)))"
    using d by (rule sum_list_distinct_conv_sum_set)
  finally show ?thesis by (simp add: total_active_stake_def)
qed

subsection \<open>Rounding to double precision\<close>

lemma msb_bounds: "0 < n \<Longrightarrow> 2 ^ msb n \<le> n \<and> n < 2 ^ Suc (msb n)"
proof (induction n rule: msb.induct)
  case (1 n)
  show ?case
  proof (cases "n < 2")
    case True
    with "1.prems" show ?thesis by (simp add: msb.simps [of n])
  next
    case False
    then have "0 < n div 2" by simp
    from "1.IH" [OF False this]
    have ih: "2 ^ msb (n div 2) \<le> n div 2" "n div 2 < 2 * 2 ^ msb (n div 2)"
      by simp_all
    have d: "2 * (n div 2) \<le> n" "n < 2 * (n div 2) + 2"
      by presburger+
    have m: "msb n = Suc (msb (n div 2))"
      using False by (simp add: msb.simps [of n])
    from ih d show ?thesis
      unfolding m by simp
  qed
qed

lemma round_even_close: "\<bar>of_int (round_even y) - y\<bar> \<le> 1 / 2"
proof -
  define f where "f = \<lfloor>y\<rfloor>"
  have b: "of_int f \<le> y" "y < of_int f + 1"
    unfolding f_def by linarith+
  consider "y - of_int f < 1 / 2" | "1 / 2 < y - of_int f" | "y - of_int f = 1 / 2"
    by linarith
  then show ?thesis
  proof cases
    case 1
    then have "round_even y = f" by (simp add: round_even_def f_def)
    with 1 b show ?thesis by simp
  next
    case 2
    then have "round_even y = f + 1" by (simp add: round_even_def f_def)
    with 2 b show ?thesis by simp
  next
    case 3
    then have "round_even y = f \<or> round_even y = f + 1"
      by (simp add: round_even_def f_def Let_def)
    with 3 show ?thesis by auto
  qed
qed

lemma round_even_of_int [simp]: "round_even (of_int k) = k"
  by (simp add: round_even_def)

lemma expo_le:
  assumes "\<bar>x\<bar> < 2 ^ k" and "0 < k"
  shows "expo x < int k"
proof (cases "1 \<le> \<bar>x\<bar>")
  case False
  then have "expo x \<le> 0" by (simp add: expo_def)
  with assms(2) show ?thesis by simp
next
  case True
  let ?n = "nat \<lfloor>\<bar>x\<bar>\<rfloor>"
  from True have pos: "0 < ?n" by simp
  from assms(1) have "\<lfloor>\<bar>x\<bar>\<rfloor> < 2 ^ k"
    by (simp add: floor_less_iff)
  with pos have "?n < nat (2 ^ k)"
    by (simp add: nat_less_iff)
  then have n: "?n < 2 ^ k"
    by (simp add: nat_power_eq)
  from msb_bounds [OF pos] have "2 ^ msb ?n \<le> ?n" ..
  with n have "(2::nat) ^ msb ?n < 2 ^ k" by linarith
  then have "msb ?n < k" by simp
  with True show ?thesis by (simp add: expo_def)
qed


lemma ulp_small:
  assumes "\<bar>x\<bar> < 2 ^ 52"
  shows "0 < (2::rat) powi (expo x - 52) \<and> (2::rat) powi (expo x - 52) \<le> 1 / 2"
proof -
  from expo_le [OF assms] have e: "expo x - 52 \<le> - 1" by simp
  have "(2::rat) powi (expo x - 52) \<le> 2 powi (- 1)"
    using e by (intro power_int_increasing) simp_all
  then show ?thesis by (simp add: power_int_minus)
qed

lemma to_double_close:
  assumes "\<bar>x\<bar> < 2 ^ 52"
  shows "\<bar>to_double x - x\<bar> \<le> 1 / 4"
proof (cases "x = 0")
  case True
  then show ?thesis by (simp add: to_double_def)
next
  case False
  define u :: rat where "u = 2 powi (expo x - 52)"
  from ulp_small [OF assms] have u: "0 < u" "u \<le> 1 / 2" by (simp_all add: u_def)
  have "to_double x - x = (of_int (round_even (x / u)) - x / u) * u"
    using False u(1) by (simp add: to_double_def u_def Let_def algebra_simps)
  then have "\<bar>to_double x - x\<bar> = \<bar>of_int (round_even (x / u)) - x / u\<bar> * u"
    using u(1) by (simp add: abs_mult)
  also have "\<dots> \<le> (1 / 2) * u"
    using round_even_close [of "x / u"] u(1) by (intro mult_right_mono) simp_all
  also have "\<dots> \<le> 1 / 4" using u(2) by simp
  finally show ?thesis .
qed

lemma to_double_of_int:
  assumes "\<bar>of_int k :: rat\<bar> < 2 ^ 52"
  shows "to_double (of_int k) = of_int k"
proof (cases "k = 0")
  case True
  then show ?thesis by (simp add: to_double_def)
next
  case False
  from expo_le [OF assms] have e: "expo (of_int k) - 52 \<le> - 1" by simp
  define j where "j = nat (52 - expo (of_int k :: rat))"
  from e have ej: "expo (of_int k :: rat) - 52 = - int j" by (simp add: j_def)
  have u: "(2::rat) powi (expo (of_int k) - 52) = 1 / 2 ^ j"
    unfolding ej by (simp add: power_int_minus field_simps)
  have "of_int k / (1 / 2 ^ j) = (of_int (k * 2 ^ j) :: rat)" by simp
  then have "round_even (of_int k / (1 / 2 ^ j)) = k * 2 ^ j"
    by (simp only: round_even_of_int)
  with False show ?thesis
    by (simp add: to_double_def Let_def u)
qed

text \<open>Below \<open>2 ^ 52\<close> the double nearest to a third of an integer lies strictly between
  the integers around it, unless it is an integer itself.\<close>

lemma gt_third_double:
  fixes w m :: int
  assumes "\<bar>of_int m / 3 :: rat\<bar> < 2 ^ 52"
  shows "(of_int w :: rat) > to_double (of_int m / 3) \<longleftrightarrow> 3 * w > m"
proof (cases "m mod 3 = 0")
  case True
  then obtain k where k: "m = 3 * k" by auto
  then have x: "(of_int m / 3 :: rat) = of_int k" by simp
  from assms to_double_of_int [of k] have "to_double (of_int k) = (of_int k :: rat)"
    unfolding x by simp
  then show ?thesis unfolding x using k by simp
next
  case False
  define n where "n = m div 3"
  define x :: rat where "x = of_int m / 3"
  from False have r: "m = 3 * n + 1 \<or> m = 3 * n + 2"
    unfolding n_def by presburger
  then have lo: "of_int n + 1 / 3 \<le> x" and hi: "x \<le> of_int n + 2 / 3"
    unfolding x_def by auto
  from to_double_close [OF assms] have c: "\<bar>to_double x - x\<bar> \<le> 1 / 4"
    by (simp add: x_def)
  from c lo hi have td: "of_int n < to_double x" "to_double x < of_int n + 1"
    by linarith+
  have "(of_int w :: rat) > to_double x \<longleftrightarrow> w \<ge> n + 1"
  proof
    assume "(of_int w :: rat) > to_double x"
    with td(1) have "(of_int n :: rat) < of_int w" by simp
    then show "w \<ge> n + 1" by simp
  next
    assume "w \<ge> n + 1"
    then have "(of_int n + 1 :: rat) \<le> of_int w"
      by (metis of_int_1 of_int_add of_int_le_iff)
    with td(2) show "(of_int w :: rat) > to_double x" by simp
  qed
  also have "\<dots> \<longleftrightarrow> 3 * w > m"
    using r by auto
  finally show ?thesis by (simp add: x_def)
qed


lemma msb_unique:
  assumes "2 ^ k \<le> n" and "n < 2 ^ Suc k"
  shows "msb n = k"
proof -
  from assms(1) have pos: "0 < n"
    by (metis less_le_trans zero_less_numeral zero_less_power)
  from msb_bounds [OF pos] have b: "2 ^ msb n \<le> n" "n < 2 ^ Suc (msb n)" by blast+
  from assms(1) b(2) have "(2::nat) ^ k < 2 ^ Suc (msb n)" by linarith
  then have "k < Suc (msb n)" by (simp only: power_strict_increasing_iff one_less_numeral_iff semiring_norm)
  moreover from assms(2) b(1) have "(2::nat) ^ msb n < 2 ^ Suc k" by linarith
  then have "msb n < Suc k" by (simp only: power_strict_increasing_iff one_less_numeral_iff semiring_norm)
  ultimately show ?thesis by simp
qed

lemma to_double_binade:
  assumes "2 ^ 52 \<le> x" and "x < 2 ^ 53"
  shows "to_double x = of_int (round_even x)"
proof -
  let ?n = "nat \<lfloor>\<bar>x\<bar>\<rfloor>"
  from assms(1) have x: "\<bar>x\<bar> = x" "1 \<le> x" "x \<noteq> 0" by simp_all
  from assms(1) have "(2::int) ^ 52 \<le> \<lfloor>x\<rfloor>" by (simp add: le_floor_iff)
  then have lo: "2 ^ 52 \<le> nat \<lfloor>x\<rfloor>" by (simp add: le_nat_iff)
  from assms(2) have "\<lfloor>x\<rfloor> < 2 ^ 53" by (simp add: floor_less_iff)
  moreover from x(2) have "0 \<le> \<lfloor>x\<rfloor>" by simp
  ultimately have hi: "nat \<lfloor>x\<rfloor> < 2 ^ Suc 52" by (simp add: nat_less_iff)
  from msb_unique [OF lo hi] have "expo x = 52"
    by (simp add: expo_def x)
  then show ?thesis by (simp add: to_double_def x)
qed

lemma total_active_stake_nonneg:
  assumes "\<forall>k. 0 \<le> active_stake_of s k"
  shows "0 \<le> total_active_stake s"
  unfolding total_active_stake_def using assms by (simp add: sum_nonneg)

subsection \<open>The supermajority test\<close>

text \<open>
  Claim C2.  In an engine whose active stakes are not negative and add up to less than
  \<open>3 * 2 ^ 51\<close>, \<open>hasSupermajority\<close> is true exactly when the summed stake of the
  active validators holding a recorded vote for the block hash strictly exceeds two
  thirds of the total active stake; when the sum is exactly two thirds of the total it
  is false.  The sums the code computes are these two quantities.  Below the bound the
  rounded quotient \<open>(totalStake * 2) / 3\<close> is less than a quarter away from the exact
  one, which is too little to change a comparison with an integer.
\<close>

theorem hasSupermajority_iff:
  assumes "consensus_inv s"
    and "\<forall>k. 0 \<le> active_stake_of s k"
    and "total_active_stake s < 3 * 2 ^ 51"
  shows "(hasSupermajority s bh \<longleftrightarrow>
            (of_int (voting_stake s bh) :: rat) > 2 / 3 * of_int (total_active_stake s)) \<and>
         ((of_int (voting_stake s bh) :: rat) = 2 / 3 * of_int (total_active_stake s)
            \<longrightarrow> \<not> hasSupermajority s bh) \<and>
         calculateStakeWeight s bh = voting_stake s bh \<and>
         getTotalStake s = total_active_stake s"
proof -
  let ?w = "voting_stake s bh" and ?t = "total_active_stake s"
  have w: "calculateStakeWeight s bh = ?w"
    using assms(1) by (rule calculateStakeWeight_voting_stake)
  have t: "getTotalStake s = ?t"
    using assms(1) by (rule getTotalStake_total_active_stake)
  have t0: "0 \<le> ?t" using assms(2) by (rule total_active_stake_nonneg)
  have "(of_int (?t * 2) / 3 :: rat) < 2 ^ 52"
    using assms(3) by simp
  moreover have "0 \<le> (of_int (?t * 2) / 3 :: rat)"
    using t0 by simp
  ultimately have small: "\<bar>of_int (?t * 2) / 3 :: rat\<bar> < 2 ^ 52" by simp
  have "hasSupermajority s bh \<longleftrightarrow> 3 * ?w > ?t * 2"
    unfolding hasSupermajority_def Let_def w t by (rule gt_third_double [OF small])
  also have "\<dots> \<longleftrightarrow> (of_int ?w :: rat) > 2 / 3 * of_int ?t"
  proof -
    have "(of_int ?w :: rat) > 2 / 3 * of_int ?t \<longleftrightarrow> (of_int (3 * ?w) :: rat) > of_int (?t * 2)"
      by (simp add: field_simps)
    then show ?thesis by (simp only: of_int_less_iff)
  qed
  finally have "hasSupermajority s bh \<longleftrightarrow> (of_int ?w :: rat) > 2 / 3 * of_int ?t" .
  with w t show ?thesis by simp
qed

text \<open>Two of three equal stakes are exactly two thirds: no supermajority.  All three
  are one.\<close>

theorem hasSupermajority_iff_witness:
  "consensus_inv stake_state \<and> (\<forall>k. 0 \<le> active_stake_of stake_state k) \<and>
   total_active_stake stake_state = 30 \<and>
   calculateStakeWeight stake_state ''b1'' = 20 \<and> getTotalStake stake_state = 30 \<and>
   \<not> hasSupermajority stake_state ''b1'' \<and> hasSupermajority stake_state ''b2''"
proof -
  have a: "consensus_inv stake_state"
    by (simp add: consensus_inv_def stake_state_def initial_def vote1_def vote2_def vote3_def)
  have n: "\<forall>k. 0 \<le> active_stake_of stake_state k"
    by (simp add: active_stake_of_def stake_state_def initial_def
        validator1_def validator2_def validator3_def)
  have w1: "calculateStakeWeight stake_state ''b1'' = 20"
    by (simp add: calculateStakeWeight_def getVotesForBlock_def stake_state_def initial_def
        vote1_def vote2_def validator1_def validator2_def)
  have w2: "calculateStakeWeight stake_state ''b2'' = 30"
    by (simp add: calculateStakeWeight_def getVotesForBlock_def stake_state_def initial_def
        vote1_def vote2_def vote3_def validator1_def validator2_def validator3_def)
  have t: "getTotalStake stake_state = 30"
    by (simp add: getTotalStake_def stake_state_def initial_def
        validator1_def validator2_def validator3_def)
  have t': "total_active_stake stake_state = 30"
    using getTotalStake_total_active_stake [OF a] t by simp
  have b: "total_active_stake stake_state < 3 * 2 ^ 51"
    by (simp add: t')
  from hasSupermajority_iff [OF a n b, of "''b1''"] hasSupermajority_iff [OF a n b, of "''b2''"]
    a n w1 w2 t t' show ?thesis by simp
qed

text \<open>
  Above the bound the rounding decides.  In \<open>large_state\<close> the total stake is
  \<open>2 ^ 53 - 1\<close> and the voting stake 6004799503160661, one third of a unit more than
  two thirds of the total.  Twice the total divided by 3 lies between \<open>2 ^ 52\<close> and
  \<open>2 ^ 53\<close>, where the doubles are the integers, and is rounded up to the voting
  stake: the test is false although the voting stake exceeds two thirds of the total.
\<close>

theorem hasSupermajority_counterexample:
  "consensus_inv large_state \<and> (\<forall>k. 0 \<le> active_stake_of large_state k) \<and>
   voting_stake large_state ''b1'' = 6004799503160661 \<and>
   total_active_stake large_state = 9007199254740991 \<and>
   calculateStakeWeight large_state ''b1'' = 6004799503160661 \<and>
   getTotalStake large_state = 9007199254740991 \<and>
   (of_int (voting_stake large_state ''b1'') :: rat) >
     2 / 3 * of_int (total_active_stake large_state) \<and>
   \<not> hasSupermajority large_state ''b1''"
proof -
  have a: "consensus_inv large_state"
    by (simp add: consensus_inv_def large_state_def initial_def vote1_def)
  have n: "\<forall>k. 0 \<le> active_stake_of large_state k"
    by (simp add: active_stake_of_def large_state_def initial_def
        large_validator1_def large_validator2_def)
  have w: "calculateStakeWeight large_state ''b1'' = 6004799503160661"
    by (simp add: calculateStakeWeight_def getVotesForBlock_def large_state_def initial_def
        vote1_def large_validator1_def)
  have t: "getTotalStake large_state = 9007199254740991"
    by (simp add: getTotalStake_def large_state_def initial_def
        large_validator1_def large_validator2_def)
  have w': "voting_stake large_state ''b1'' = 6004799503160661"
    using calculateStakeWeight_voting_stake [OF a, of "''b1''"] w by simp
  have t': "total_active_stake large_state = 9007199254740991"
    using getTotalStake_total_active_stake [OF a] t by simp
  have "\<lfloor>18014398509481982 / 3 :: rat\<rfloor> = 6004799503160660"
    by (rule floor_unique) simp_all
  then have "round_even (18014398509481982 / 3) = 6004799503160661"
    by (simp add: round_even_def Let_def)
  then have d: "to_double (18014398509481982 / 3) = 6004799503160661"
    by (simp add: to_double_binade)
  have h: "\<not> hasSupermajority large_state ''b1''"
    by (simp add: hasSupermajority_def Let_def w t d)
  from a n w t h show ?thesis
    by (simp add: w' t')
qed


section \<open>Hexadecimal strings\<close>

lemma unhex_hexdigit:
  assumes "n < 16"
  shows "unhex (hexdigit n) = Some n"
proof -
  have "list_all (\<lambda>k. unhex (hexdigit k) = Some k) [0..<16]"
    by code_simp
  with assms show ?thesis
    by (simp add: list_all_iff)
qed

lemma of_char_lt_256: "(of_char c :: nat) < 256"
proof -
  have "(of_char c :: nat) = of_char c mod 256"
    by (simp only: of_char_mod_256)
  also have "\<dots> < 256" by simp
  finally show ?thesis .
qed

lemma hexDecode_hex: "hexDecode (hex bs) = bs"
proof (induction bs)
  case Nil
  then show ?case by (simp add: hex_def)
next
  case (Cons c cs)
  let ?n = "of_char c :: nat"
  have hi: "?n div 16 < 16" using of_char_lt_256 [of c] by (intro less_mult_imp_div_less) simp
  have lo: "?n mod 16 < 16" by simp
  have "char_of (16 * (?n div 16) + ?n mod 16) = c" by simp
  with Cons show ?case
    by (simp add: hex_def unhex_hexdigit [OF hi] unhex_hexdigit [OF lo])
qed


section \<open>Verifying a clock segment\<close>

lemma expectedHashInput_eq:
  "expectedHashInput prev cur =
     poh_hash prev @ toString (poh_count prev) @
       (case events cur of None \<Rightarrow> [] | Some evs \<Rightarrow> concat (map ev_hash evs))"
  by (auto simp: expectedHashInput_def Let_def split: option.splits)






lemma length_digest_bytes: "length (digest_bytes d) = 32"
  by (simp add: digest_bytes_def)






subsection \<open>Entries produced by the clock\<close>

text \<open>
  \<open>generateNextEntry\<close> hashes the current hash with the count of the entry it makes,
  while \<open>verifySequence\<close> recomputes an entry's hash with the count of its
  predecessor.  Two entries produced one after the other therefore verify only when
  the digest function gives the same digest for the two inputs, which differ in the
  count.
\<close>

lemma generated_pair_verifies_iff:
  assumes "generateNextEntry sha t1 c evs1 = (e1, c1)"
    and "generateNextEntry sha t2 c1 evs2 = (e2, c2)"
  shows "verifySequence sha [e1, e2] \<longleftrightarrow>
     digest_hex (sha (poh_hash e1 @ toString (poh_count e1 + 1) @
        (case events e2 of None \<Rightarrow> [] | Some es \<Rightarrow> concat (map ev_hash es)))) =
     digest_hex (sha (poh_hash e1 @ toString (poh_count e1) @
        (case events e2 of None \<Rightarrow> [] | Some es \<Rightarrow> concat (map ev_hash es))))"
proof -
  from assms(1) have c1: "clk_currentHash c1 = poh_hash e1" "clk_count c1 = poh_count e1 + 1"
    by (auto simp: generateNextEntry_def Let_def)
  from assms(2) have e2: "poh_count e2 = clk_count c1"
    "poh_hash e2 = digest_hex (sha (clk_currentHash c1 @ toString (clk_count c1) @
        (case events e2 of None \<Rightarrow> [] | Some es \<Rightarrow> concat (map ev_hash es))))"
    by (auto simp: generateNextEntry_def Let_def split: option.splits)
  show ?thesis
    by (simp add: verifySequence_def expectedHashInput_eq e2 c1)
qed

section \<open>Producing and validating a block\<close>

lemma verify_signMessage:
  "verifySignature sha msg (signMessage sha msg' privateKey) pk \<longleftrightarrow> length (hexDecode pk) = 32"
  by (simp add: verifySignature_def signMessage_def KeyPair_verify_def KeyPair_sign_def
      Let_def hexDecode_hex length_digest_bytes)

lemma length_slice0: "0 \<le> e \<Longrightarrow> int (length (slice0 xs e)) \<le> e"
  by (simp add: slice0_def)

lemma validateBlock_createBlock_iff:
  "validateBlock sha stringify bp
     (createBlock sha stringify now bp txs ph pc ld privateKey sl ep prevHash) \<longleftrightarrow>
   length (hexDecode ld) = 32 \<and>
   (blockchain bp = [] \<or> linkHash bp prevHash = hash (last (blockchain bp))) \<and>
   int (length (slice0 txs (maxTransactionsPerBlock bp))) \<le> maxTransactionsPerBlock bp"
proof -
  let ?txs = "slice0 txs (maxTransactionsPerBlock bp)"
  let ?h = "calculateBlockHash sha stringify
            \<lparr> bd_previousHash = linkHash bp prevHash, bd_pohHash = ph,
              bd_pohCount = pc, bd_transactions = ?txs,
              bd_timestamp = now, bd_leader = ld, bd_slot = sl, bd_epoch = ep \<rparr>"
  have b: "createBlock sha stringify now bp txs ph pc ld privateKey sl ep prevHash =
      \<lparr> hash = ?h, previousHash = linkHash bp prevHash, pohHash = ph, pohCount = pc,
        transactions = ?txs, timestamp = now, leader = ld,
        signature = signMessage sha ?h privateKey, slot = sl, epoch = ep \<rparr>"
    by (simp add: createBlock_def Let_def linkHash_def)
  have lb: "blockchain bp \<noteq> [] \<Longrightarrow> getLatestBlock bp = Some (last (blockchain bp))"
    by (simp add: getLatestBlock_def last_conv_nth)
  show ?thesis
    unfolding b
    by (cases "blockchain bp = []") (auto simp: validateBlock_def Let_def verify_signMessage lb)
qed

text \<open>
  Claim C6, amended.  The block returned by \<open>createBlock\<close> passes \<open>validateBlock\<close>
  against the same chain state when the leader's public key is the hexadecimal form
  of 32 bytes, the configured maximum of transactions is not negative, and the chain
  is empty or the previous hash is left out, is empty, or is the hash of the chain's
  latest block.
\<close>

theorem createBlock_validateBlock:
  assumes "length (hexDecode ld) = 32"
    and "0 \<le> maxTransactionsPerBlock bp"
    and "blockchain bp = [] \<or> prevHash = None \<or> prevHash = Some [] \<or>
         prevHash = Some (hash (last (blockchain bp)))"
  shows "validateBlock sha stringify bp
           (createBlock sha stringify now bp txs ph pc ld privateKey sl ep prevHash)"
proof -
  have link: "blockchain bp = [] \<or> linkHash bp prevHash = hash (last (blockchain bp))"
  proof (cases "blockchain bp = []")
    case True
    then show ?thesis by simp
  next
    case False
    then have "getLatestBlockHash bp = hash (last (blockchain bp))"
      by (simp add: getLatestBlockHash_def getLatestBlock_def last_conv_nth)
    with assms(3) False have "linkHash bp prevHash = hash (last (blockchain bp))"
      by (auto simp: linkHash_def)
    then show ?thesis by simp
  qed
  with assms(1) length_slice0 [OF assms(2)] show ?thesis
    by (simp only: validateBlock_createBlock_iff simp_thms)
qed

theorem createBlock_validateBlock_witness:
  "length (hexDecode leader_key) = 32 \<and> 0 \<le> maxTransactionsPerBlock producer1 \<and>
   validateBlock sample_sha (\<lambda>_. ''json'') producer1
     (createBlock sample_sha (\<lambda>_. ''json'') 1000 producer1 [] ''p'' 7 leader_key ''0a'' 2 0 None)"
proof -
  have a: "length (hexDecode leader_key) = 32"
    by (simp add: leader_key_def unhex_def)
  have b: "0 \<le> maxTransactionsPerBlock producer1"
    by (simp add: producer1_def)
  have c: "blockchain producer1 = [] \<or> (None :: string option) = None \<or> None = Some [] \<or>
         None = Some (hash (last (blockchain producer1)))"
    by simp
  from createBlock_validateBlock [OF a b c] a b show ?thesis by simp
qed

text \<open>With a block on the chain, a block made with another previous hash is built
  and signed as asked, and rejected.\<close>

theorem createBlock_validateBlock_counterexample:
  "\<not> validateBlock sample_sha (\<lambda>_. ''json'') producer1
       (createBlock sample_sha (\<lambda>_. ''json'') 1000 producer1 [] ''p'' 7 leader_key ''0a'' 2 0
          (Some ''other''))"
  by (simp add: validateBlock_createBlock_iff linkHash_def producer1_def block_with_hash_def)

section \<open>Fork choice\<close>

lemma selectFork_loop_char:
  "selectFork_loop s best bw cands =
     (if \<exists>b \<in> set cands. weight s b > bw then first_heaviest s cands else best)"
proof (induction cands arbitrary: best bw)
  case Nil
  then show ?case by simp
next
  case (Cons b rest)
  let ?w = "weight s b"
  have step: "selectFork_loop s best bw (b # rest) =
      (if ?w > bw then selectFork_loop s (Some b) ?w rest else selectFork_loop s best bw rest)"
    by (simp add: weight_def Let_def)
  have skip: "first_heaviest s (b # rest) = first_heaviest s rest"
    if "c \<in> set rest" "weight s c > ?w" for c
  proof -
    from that have ne: "rest \<noteq> []" by auto
    have "weight s c \<le> Max (weight s ` set rest)"
      using that(1) by simp
    with that(2) have "?w < Max (weight s ` set rest)" by simp
    then have "Max (weight s ` set (b # rest)) = Max (weight s ` set rest)"
      "?w \<noteq> Max (weight s ` set rest)"
      using ne by (auto simp: max_def)
    then show ?thesis by (simp add: first_heaviest_def)
  qed
  have top: "first_heaviest s (b # rest) = Some b" if "\<forall>c \<in> set rest. weight s c \<le> ?w"
  proof -
    have "Max (weight s ` set (b # rest)) = ?w"
      using that by (intro Max_eqI) auto
    then show ?thesis by (simp add: first_heaviest_def)
  qed
  show ?case
  proof (cases "?w > bw")
    case True
    show ?thesis
    proof (cases "\<exists>c \<in> set rest. weight s c > ?w")
      case True
      then obtain c where c: "c \<in> set rest" "weight s c > ?w" by blast
      with \<open>?w > bw\<close> True show ?thesis
        unfolding step Cons.IH skip [OF c] by auto
    next
      case False
      then have "\<forall>c \<in> set rest. weight s c \<le> ?w" by auto
      from top [OF this] False \<open>?w > bw\<close> show ?thesis
        unfolding step Cons.IH by auto
    qed
  next
    case False
    show ?thesis
    proof (cases "\<exists>c \<in> set rest. weight s c > bw")
      case True
      then obtain c where c: "c \<in> set rest" "weight s c > bw" by blast
      with False have "weight s c > ?w" by simp
      from skip [OF c(1) this] True False show ?thesis
        unfolding step Cons.IH by auto
    next
      case False
      with \<open>\<not> ?w > bw\<close> show ?thesis
        unfolding step Cons.IH by auto
    qed
  qed
qed


text \<open>
  Claim C7, amended.  When some candidate has a positive stake weight, \<open>selectFork\<close>
  returns the hash of the first candidate of greatest weight: no candidate is heavier
  and every earlier candidate is lighter.  When no candidate has a positive weight
  (in particular for the empty list) it returns \<open>null\<close>.
\<close>

theorem selectFork_first_heaviest:
  "((\<exists>b \<in> set cands. weight s b > 0) \<longrightarrow>
      (\<exists>i < length cands.
         selectFork s cands = Some (hash (cands ! i)) \<and>
         (\<forall>c \<in> set cands. weight s c \<le> weight s (cands ! i)) \<and>
         (\<forall>j < i. weight s (cands ! j) < weight s (cands ! i)))) \<and>
   ((\<forall>b \<in> set cands. weight s b \<le> 0) \<longrightarrow> selectFork s cands = None)"
proof (intro conjI impI)
  assume pos: "\<exists>b \<in> set cands. weight s b > 0"
  then have ne: "cands \<noteq> []" by auto
  let ?M = "Max (weight s ` set cands)"
  have "?M \<in> weight s ` set cands" using ne by (intro Max_in) auto
  then have "\<exists>x. x \<in> set cands \<and> weight s x = ?M" by auto
  then obtain b where b: "find (\<lambda>b. weight s b = ?M) cands = Some b"
    using find_None_iff [of "\<lambda>b. weight s b = ?M" cands] by (cases "find (\<lambda>b. weight s b = ?M) cands") auto
  then obtain i where i: "i < length cands" "weight s (cands ! i) = ?M" "b = cands ! i"
    "\<forall>j < i. weight s (cands ! j) \<noteq> ?M"
    unfolding find_Some_iff by blast
  have le: "weight s c \<le> ?M" if "c \<in> set cands" for c
    using that by simp
  have lt: "weight s (cands ! j) < ?M" if "j < i" for j
  proof -
    from that i(1) have "cands ! j \<in> set cands" by simp
    from le [OF this] i(4) that show ?thesis by (simp add: order_less_le)
  qed
  have "selectFork s cands = Some (hash (cands ! i))"
    using pos b i(3) by (simp add: selectFork_def selectFork_loop_char first_heaviest_def)
  with i(1) i(2) le lt show "\<exists>i < length cands.
         selectFork s cands = Some (hash (cands ! i)) \<and>
         (\<forall>c \<in> set cands. weight s c \<le> weight s (cands ! i)) \<and>
         (\<forall>j < i. weight s (cands ! j) < weight s (cands ! i))"
    by auto
next
  assume "\<forall>b \<in> set cands. weight s b \<le> 0"
  then have "\<not> (\<exists>b \<in> set cands. weight s b > 0)" by auto
  then show "selectFork s cands = None"
    by (simp add: selectFork_def selectFork_loop_char)
qed

theorem selectFork_first_heaviest_witness:
  "(\<exists>b \<in> set [block_with_hash ''b1'', block_with_hash ''b2'']. weight stake_state b > 0) \<and>
   selectFork stake_state [block_with_hash ''b1'', block_with_hash ''b2''] = Some ''b2'' \<and>
   weight stake_state (block_with_hash ''b0'') \<le> 0 \<and>
   selectFork stake_state [block_with_hash ''b0''] = None"
proof -
  have w: "weight stake_state (block_with_hash ''b1'') = 20"
    "weight stake_state (block_with_hash ''b2'') = 30"
    "weight stake_state (block_with_hash ''b0'') = 0"
    by (simp_all add: weight_def block_with_hash_def calculateStakeWeight_def getVotesForBlock_def
        stake_state_def initial_def vote1_def vote2_def vote3_def
        validator1_def validator2_def validator3_def)
  have h: "hash (block_with_hash ''b2'') = ''b2''" "hash (block_with_hash ''b1'') = ''b1''"
    by (simp_all add: block_with_hash_def)
  define cands where "cands = [block_with_hash ''b1'', block_with_hash ''b2'']"
  have pos: "\<exists>b \<in> set cands. weight stake_state b > 0"
    by (simp add: cands_def w)
  from selectFork_first_heaviest [of cands stake_state] pos
  obtain i where i: "i < length cands"
    "selectFork stake_state cands = Some (hash (cands ! i))"
    "\<forall>c \<in> set cands. weight stake_state c \<le> weight stake_state (cands ! i)"
    by blast
  from i(3) have "weight stake_state (block_with_hash ''b2'') \<le> weight stake_state (cands ! i)"
    by (simp add: cands_def)
  with i(1) have "i = 1"
    by (cases i) (simp_all add: cands_def w)
  with i(2) have sel: "selectFork stake_state cands = Some ''b2''"
    by (simp add: cands_def h)
  have non: "\<forall>b \<in> set [block_with_hash ''b0'']. weight stake_state b \<le> 0"
    by (simp add: w)
  from selectFork_first_heaviest [of "[block_with_hash ''b0'']" stake_state] non
  have "selectFork stake_state [block_with_hash ''b0''] = None" by blast
  with pos sel show ?thesis by (simp add: cands_def w)
qed

text \<open>A single candidate that nobody has voted for is not selected.\<close>

theorem selectFork_counterexample:
  "[block_with_hash ''b0''] \<noteq> [] \<and>
   selectFork stake_state [block_with_hash ''b0''] \<noteq> Some (hash (block_with_hash ''b0''))"
  by (simp add: selectFork_def block_with_hash_def calculateStakeWeight_def getVotesForBlock_def
      stake_state_def initial_def)

section \<open>Leader schedules\<close>

lemma set_insert_sorted: "set (insert_sorted cmp x ys) = insert x (set ys)"
  by (induction ys) auto

lemma length_insert_sorted: "length (insert_sorted cmp x ys) = Suc (length ys)"
  by (induction ys) auto

lemma set_sort_by: "set (sort_by cmp xs) = set xs"
  by (induction xs) (simp_all add: sort_by_def set_insert_sorted)

lemma length_sort_by: "length (sort_by cmp xs) = length xs"
  by (induction xs) (simp_all add: sort_by_def length_insert_sorted)

lemma length_swap: "length (swap i j xs) = length xs"
  by (simp add: swap_def)

lemma set_swap': "i < length xs \<Longrightarrow> j < length xs \<Longrightarrow> set (swap i j xs) = set xs"
  by (simp add: swap_def)

lemma shuffle_loop_perm:
  "k < length xs \<Longrightarrow>
     set (shuffle_loop sha h k xs) = set xs \<and> length (shuffle_loop sha h k xs) = length xs"
proof (induction k arbitrary: xs)
  case 0
  then show ?case by simp
next
  case (Suc k)
  let ?j = "readUInt32BE0 (sha (digest_bytes h @ toString (int (Suc k)))) mod (Suc k + 1)"
  have j: "?j < length xs"
  proof -
    have "?j < Suc k + 1" by (rule mod_less_divisor) simp
    also have "Suc k + 1 \<le> length xs" using Suc.prems by simp
    finally show ?thesis .
  qed
  have "k < length (swap (Suc k) ?j xs)"
    using Suc.prems by (simp add: length_swap)
  from Suc.IH [OF this] Suc.prems j show ?case
    by (simp add: Let_def length_swap set_swap')
qed

lemma shuffleValidators_perm:
  "set (shuffleValidators sha vs sd) = set vs \<and> length (shuffleValidators sha vs sd) = length vs"
proof (cases vs)
  case Nil
  then show ?thesis by (simp add: shuffleValidators_def)
next
  case (Cons v rest)
  then have "length vs - 1 < length vs" by simp
  from shuffle_loop_perm [OF this] show ?thesis
    by (simp add: shuffleValidators_def Let_def)
qed

lemma length_rotations:
  "length (concat (map (\<lambda>r. replicate m (f r)) [0..<n])) = n * m"
  by (induction n) simp_all

lemma set_rotations:
  "0 < m \<Longrightarrow> set (concat (map (\<lambda>r. replicate m (f r)) [0..<n])) = f ` {0..<n}"
  by (induction n) (auto simp: atLeast0_lessThan_Suc)

lemma length_rotation_schedule: "length (rotation_schedule shuffled) = 64"
  by (simp add: rotation_schedule_def length_rotations)

lemma set_rotation_schedule:
  "set (rotation_schedule shuffled) =
     (\<lambda>rotation. publicKey (shuffled ! (rotation mod length shuffled))) ` {0..<16}"
  unfolding rotation_schedule_def by (rule set_rotations) simp

lemma generateEqualDistributionSchedule_eq:
  assumes "vs \<noteq> []"
  shows "generateEqualDistributionSchedule sha vs sd =
     Inr (rotation_schedule (shuffleValidators sha vs sd))"
proof -
  have ne: "shuffleValidators sha vs sd \<noteq> []"
    using shuffleValidators_perm [of sha vs sd] assms by auto
  have n: "nat SLOTS_PER_EPOCH = 64" by (simp add: SLOTS_PER_EPOCH_def)
  show ?thesis
    unfolding generateEqualDistributionSchedule_def Let_def n rotation_schedule_def
    using ne by (simp add: length_rotations)
qed

lemma selectLeaderByStake_Some:
  "vs \<noteq> [] \<Longrightarrow> \<exists>v. selectLeaderByStake vs d = Some v"
  by (cases vs) (auto simp: selectLeaderByStake_def Let_def split: option.splits)

lemma genesis_loop_total:
  "vs \<noteq> [] \<Longrightarrow> \<exists>sched. genesis_loop sha h vs sls = Inr sched \<and> length sched = length sls"
proof (induction sls)
  case Nil
  then show ?case by simp
next
  case (Cons sl rest)
  from Cons.prems obtain ld where
    ld: "selectLeaderByStake vs (sha (digest_bytes h @ toString (int sl))) = Some ld"
    using selectLeaderByStake_Some by blast
  from Cons.IH [OF Cons.prems] obtain sched where
    "genesis_loop sha h vs rest = Inr sched" "length sched = length rest" by blast
  with ld show ?case by (simp add: Let_def)
qed

lemma generateLeaderSchedule_total:
  "\<exists>sched. generateLeaderSchedule sha cmp s ep sd = Inr sched \<and>
     length sched = (if getActiveValidators s = [] then 0 else 64)"
proof (cases "getActiveValidators s = []")
  case True
  then show ?thesis by (simp add: generateLeaderSchedule_def)
next
  case False
  let ?sorted = "sort_by (\<lambda>a b. cmp (publicKey a) (publicKey b)) (getActiveValidators s)"
  have ne: "?sorted \<noteq> []"
    using False length_sort_by [of "\<lambda>a b. cmp (publicKey a) (publicKey b)" "getActiveValidators s"]
    by (metis length_0_conv)
  show ?thesis
  proof (cases "ep > 0")
    case True
    with False show ?thesis
      by (simp add: generateLeaderSchedule_def Let_def generateEqualDistributionSchedule_eq [OF ne]
          length_rotation_schedule)
  next
    case ep: False
    from genesis_loop_total [OF ne, of sha "sha sd" "[0..<nat SLOTS_PER_EPOCH]"]
    obtain sched where "genesis_loop sha (sha sd) ?sorted [0..<nat SLOTS_PER_EPOCH] = Inr sched"
      "length sched = 64"
      by (auto simp: SLOTS_PER_EPOCH_def)
    with False ep show ?thesis
      by (simp add: generateLeaderSchedule_def Let_def)
  qed
qed


lemma generateLeaderSchedule_later:
  assumes "getActiveValidators s \<noteq> []" and "0 < ep"
  shows "\<exists>shuffled. set shuffled = set (getActiveValidators s) \<and>
           length shuffled = length (getActiveValidators s) \<and>
           generateLeaderSchedule sha cmp s ep sd = Inr (rotation_schedule shuffled)"
proof -
  let ?sorted = "sort_by (\<lambda>a b. cmp (publicKey a) (publicKey b)) (getActiveValidators s)"
  let ?sh = "shuffleValidators sha ?sorted sd"
  have l: "length ?sorted = length (getActiveValidators s)" by (rule length_sort_by)
  with assms(1) have ne: "?sorted \<noteq> []" by (metis length_0_conv)
  have "set ?sh = set (getActiveValidators s)"
    using shuffleValidators_perm [of sha ?sorted sd] by (simp add: set_sort_by)
  moreover have "length ?sh = length (getActiveValidators s)"
    using shuffleValidators_perm [of sha ?sorted sd] l by simp
  moreover have "generateLeaderSchedule sha cmp s ep sd = Inr (rotation_schedule ?sh)"
    using assms by (simp add: generateLeaderSchedule_def Let_def generateEqualDistributionSchedule_eq [OF ne])
  ultimately show ?thesis by blast
qed

lemma schedule_card:
  assumes "generateLeaderSchedule sha cmp s ep sd = Inr sched" and "0 < ep"
  shows "card (set sched) \<le> 16"
proof (cases "getActiveValidators s = []")
  case True
  with assms show ?thesis by (simp add: generateLeaderSchedule_def)
next
  case False
  from generateLeaderSchedule_later [OF False assms(2), of sha cmp sd] assms(1)
  obtain shuffled where "sched = rotation_schedule shuffled"
    by auto
  then have "set sched = (\<lambda>rotation. publicKey (shuffled ! (rotation mod length shuffled))) ` {0..<16}"
    by (simp only: set_rotation_schedule)
  moreover have "card ((\<lambda>rotation. publicKey (shuffled ! (rotation mod length shuffled))) ` {0..<16})
      \<le> card {0..<16::nat}"
    by (rule card_image_le) simp
  ultimately show ?thesis by simp
qed


text \<open>
  Claim C1, amended.  For a non-empty set of active validators and every seed and
  epoch, \<open>generateLeaderSchedule\<close> returns a schedule of exactly 64 entries.  For an
  epoch after genesis the schedule names active validators only, and it names every
  active validator when there are at most 16 of them, the number of four-slot
  rotations in an epoch.
\<close>

theorem generateLeaderSchedule_spec:
  assumes "getActiveValidators s \<noteq> []"
  shows "\<exists>sched. generateLeaderSchedule sha cmp s ep sd = Inr sched \<and>
           int (length sched) = SLOTS_PER_EPOCH \<and>
           (0 < ep \<longrightarrow> set sched \<subseteq> publicKey ` set (getActiveValidators s)) \<and>
           (0 < ep \<and> length (getActiveValidators s) \<le> 16 \<longrightarrow>
              publicKey ` set (getActiveValidators s) \<subseteq> set sched)"
proof -
  from generateLeaderSchedule_total [of sha cmp s ep sd] assms obtain sched where
    sched: "generateLeaderSchedule sha cmp s ep sd = Inr sched" "length sched = 64"
    by auto
  have "set sched \<subseteq> publicKey ` set (getActiveValidators s) \<and>
        (length (getActiveValidators s) \<le> 16 \<longrightarrow>
           publicKey ` set (getActiveValidators s) \<subseteq> set sched)" if ep: "0 < ep"
  proof -
    from generateLeaderSchedule_later [OF assms ep, of sha cmp sd] sched(1)
    obtain shuffled where sh: "set shuffled = set (getActiveValidators s)"
      "length shuffled = length (getActiveValidators s)"
      "sched = rotation_schedule shuffled"
      by auto
    let ?n = "length shuffled"
    from assms sh(2) have n: "0 < ?n" by simp
    have set_sched: "set sched = (\<lambda>rotation. publicKey (shuffled ! (rotation mod ?n))) ` {0..<16}"
      using sh(3) by (simp only: set_rotation_schedule)
    have sub: "set sched \<subseteq> publicKey ` set (getActiveValidators s)"
    proof
      fix k assume "k \<in> set sched"
      then obtain r where "k = publicKey (shuffled ! (r mod ?n))"
        unfolding set_sched by blast
      moreover have "shuffled ! (r mod ?n) \<in> set shuffled"
        using n by simp
      ultimately show "k \<in> publicKey ` set (getActiveValidators s)"
        using sh(1) by blast
    qed
    have sup: "publicKey ` set (getActiveValidators s) \<subseteq> set sched"
      if le: "length (getActiveValidators s) \<le> 16"
    proof
      fix k assume "k \<in> publicKey ` set (getActiveValidators s)"
      then obtain v where v: "v \<in> set shuffled" "k = publicKey v"
        using sh(1) by blast
      then obtain i where i: "i < ?n" "shuffled ! i = v"
        by (auto simp: in_set_conv_nth)
      with le sh(2) have "i \<in> {0..<16}" by simp
      moreover from i have "publicKey (shuffled ! (i mod ?n)) = k"
        using v(2) by simp
      ultimately show "k \<in> set sched"
        unfolding set_sched by blast
    qed
    from sub sup show ?thesis by blast
  qed
  with sched show ?thesis by (auto simp: SLOTS_PER_EPOCH_def)
qed

theorem generateLeaderSchedule_spec_witness:
  "getActiveValidators stake_state \<noteq> [] \<and>
   (\<exists>sched. generateLeaderSchedule sample_sha sample_compare stake_state 1 ''seed'' = Inr sched \<and>
      length sched = 64 \<and> set sched = {''v1'', ''v2'', ''v3''})"
proof -
  have a: "getActiveValidators stake_state = [validator1, validator2, validator3]"
    by (simp add: getActiveValidators_def stake_state_def initial_def
        validator1_def validator2_def validator3_def)
  then have ne: "getActiveValidators stake_state \<noteq> []" by simp
  have k: "publicKey ` set (getActiveValidators stake_state) = {''v1'', ''v2'', ''v3''}"
    by (simp add: a validator1_def validator2_def validator3_def)
  from generateLeaderSchedule_spec [OF ne, of sample_sha sample_compare 1 "''seed''"] ne
  show ?thesis
    unfolding k by (auto simp: a SLOTS_PER_EPOCH_def)
qed

lemma crowded_keys:
  "map publicKey (getActiveValidators crowded_state) = map (\<lambda>c. [c]) ''abcdefghijklmnopq''"
  by (simp add: crowded_state_def getActiveValidators_def)

lemma crowded_card: "card (publicKey ` set (getActiveValidators crowded_state)) = 17"
proof -
  have "distinct (map publicKey (getActiveValidators crowded_state))"
    unfolding crowded_keys by simp
  from distinct_card [OF this]
  have "card (set (map publicKey (getActiveValidators crowded_state))) = 17"
    by (simp add: crowded_keys)
  then show ?thesis by (simp only: set_map)
qed

text \<open>With seventeen validators and sixty-four slots, no schedule for epoch 1 names
  every validator.\<close>

theorem generateLeaderSchedule_counterexample:
  "int (length (getActiveValidators crowded_state)) \<le> SLOTS_PER_EPOCH \<and>
   getActiveValidators crowded_state \<noteq> [] \<and>
   \<not> (\<exists>sched. generateLeaderSchedule sample_sha sample_compare crowded_state 1 ''seed'' = Inr sched \<and>
          publicKey ` set (getActiveValidators crowded_state) \<subseteq> set sched)"
proof -
  have len: "length (getActiveValidators crowded_state) = 17"
    using arg_cong [OF crowded_keys, of length] by simp
  have "\<not> publicKey ` set (getActiveValidators crowded_state) \<subseteq> set sched"
    if "generateLeaderSchedule sample_sha sample_compare crowded_state 1 ''seed'' = Inr sched"
    for sched
  proof
    assume "publicKey ` set (getActiveValidators crowded_state) \<subseteq> set sched"
    then have "card (publicKey ` set (getActiveValidators crowded_state)) \<le> card (set sched)"
      by (intro card_mono) simp_all
    with schedule_card [OF that] crowded_card show False by simp
  qed
  with len show ?thesis by (auto simp: SLOTS_PER_EPOCH_def)
qed


section \<open>Advancing the slot\<close>

lemma generateLeaderSchedule_update:
  "generateLeaderSchedule sha cmp (s\<lparr> epochFinalHash := x \<rparr>) ep sd =
     generateLeaderSchedule sha cmp s ep sd"
  "generateLeaderSchedule sha cmp (s\<lparr> currentSlot := sl \<rparr>) ep sd =
     generateLeaderSchedule sha cmp s ep sd"
  by (simp_all add: generateLeaderSchedule_def getActiveValidators_def)

lemma calculateEpochFinalHash_update:
  "calculateEpochFinalHash sha (s\<lparr> currentSlot := sl \<rparr>) ep = calculateEpochFinalHash sha s ep"
  by (simp add: calculateEpochFinalHash_def)

lemma transitioned_fields:
  "validators (transitioned sha s sched) = validators s"
  "votes (transitioned sha s sched) = votes s"
  "lockouts (transitioned sha s sched) = lockouts s"
  "currentSlot (transitioned sha s sched) = currentSlot s"
  "currentEpoch (transitioned sha s sched) = currentEpoch s + 1"
  "epochStartSlot (transitioned sha s sched) = currentSlot s"
  "leaderSchedule (transitioned sha s sched) = sched"
  "epochFinalHash (transitioned sha s sched) =
     Some (calculateEpochFinalHash sha s (currentEpoch s))"
  "leaderSchedules (transitioned sha s sched) =
     AList.update (currentEpoch s + 1)
       \<lparr> ls_epoch = currentEpoch s + 1, schedule = sched,
         seed = calculateEpochFinalHash sha s (currentEpoch s) \<rparr>
       (leaderSchedules s)"
  "epochBlocks (transitioned sha s sched) = AList.update (currentEpoch s + 1) [] (epochBlocks s)"
  by (simp_all add: transitioned_def)

lemma cleanupExpiredLockouts_fields:
  "validators (cleanupExpiredLockouts s) = validators s"
  "votes (cleanupExpiredLockouts s) = votes s"
  "currentSlot (cleanupExpiredLockouts s) = currentSlot s"
  "currentEpoch (cleanupExpiredLockouts s) = currentEpoch s"
  "epochStartSlot (cleanupExpiredLockouts s) = epochStartSlot s"
  "leaderSchedule (cleanupExpiredLockouts s) = leaderSchedule s"
  "epochFinalHash (cleanupExpiredLockouts s) = epochFinalHash s"
  "leaderSchedules (cleanupExpiredLockouts s) = leaderSchedules s"
  "epochBlocks (cleanupExpiredLockouts s) = epochBlocks s"
  by (simp_all add: cleanupExpiredLockouts_def)

lemma transitionToNextEpoch_eq:
  "\<exists>sched. generateLeaderSchedule sha cmp s (currentEpoch s + 1)
              (calculateEpochFinalHash sha s (currentEpoch s)) = Inr sched \<and>
     transitionToNextEpoch sha cmp s = Inr (transitioned sha s sched)"
proof -
  let ?fh = "calculateEpochFinalHash sha s (currentEpoch s)"
  from generateLeaderSchedule_total [of sha cmp s "currentEpoch s + 1" ?fh]
  obtain sched where sched: "generateLeaderSchedule sha cmp s (currentEpoch s + 1) ?fh = Inr sched"
    by blast
  have g: "generateLeaderSchedule sha cmp (s\<lparr> epochFinalHash := Some ?fh \<rparr>) (currentEpoch s + 1) ?fh
      = Inr sched"
    using sched by (simp only: generateLeaderSchedule_update)
  have "transitionToNextEpoch sha cmp s = Inr (transitioned sha s sched)"
    by (simp add: transitionToNextEpoch_def Let_def g transitioned_def)
  with sched show ?thesis by blast
qed

lemma cleanupExpiredLockouts_lockouts:
  assumes "consensus_inv s"
  shows "lockouts (cleanupExpiredLockouts s) =
     map (\<lambda>(k, table). (k, filter (\<lambda>(sl, expiry). \<not> currentSlot s \<ge> expiry) table)) (lockouts s)"
proof -
  have "\<forall>(k, table) \<in> set (lockouts s). distinct (map fst table)"
    using assms by (simp add: consensus_inv_def list_all_iff)
  then have "map (\<lambda>(k, table). (k, cleanupTable (currentSlot s) table)) (lockouts s) =
      map (\<lambda>(k, table). (k, filter (\<lambda>(sl, expiry). \<not> currentSlot s \<ge> expiry) table)) (lockouts s)"
    by (intro map_cong) (auto simp: cleanupTable_filter)
  then show ?thesis by (simp add: cleanupExpiredLockouts_def)
qed

lemma inv_fields:
  "validators s1 = validators s \<Longrightarrow> lockouts s1 = lockouts s \<Longrightarrow> votes s1 = votes s \<Longrightarrow>
   distinct (map fst (leaderSchedules s1)) \<Longrightarrow> distinct (map fst (epochBlocks s1)) \<Longrightarrow>
   consensus_inv s \<Longrightarrow> consensus_inv s1"
  by (simp add: consensus_inv_def)

lemma inv_currentSlot: "consensus_inv s \<Longrightarrow> consensus_inv (s\<lparr> currentSlot := sl \<rparr>)"
  by (simp add: consensus_inv_def)

lemma inv_transitioned: "consensus_inv s \<Longrightarrow> consensus_inv (transitioned sha s sched)"
  by (rule inv_fields [of _ s])
     (simp_all add: transitioned_fields consensus_inv_def distinct_update)

lemma updateSlot_eq:
  "\<exists>sched. generateLeaderSchedule sha cmp s (currentEpoch s + 1)
              (calculateEpochFinalHash sha s (currentEpoch s)) = Inr sched \<and>
     updateSlot sha cmp s sl =
       Inr (cleanupExpiredLockouts
              (if getEpochFromSlot sl > currentEpoch s
               then transitioned sha (s\<lparr> currentSlot := sl \<rparr>) sched
               else s\<lparr> currentSlot := sl \<rparr>))"
proof -
  let ?s1 = "s\<lparr> currentSlot := sl \<rparr>"
  have e1: "currentEpoch ?s1 = currentEpoch s" by simp
  from transitionToNextEpoch_eq [of sha cmp ?s1] obtain sched where
    g: "generateLeaderSchedule sha cmp ?s1 (currentEpoch s + 1)
          (calculateEpochFinalHash sha s (currentEpoch s)) = Inr sched"
    and t: "transitionToNextEpoch sha cmp ?s1 = Inr (transitioned sha ?s1 sched)"
    unfolding e1 calculateEpochFinalHash_update by blast
  have "generateLeaderSchedule sha cmp s (currentEpoch s + 1)
          (calculateEpochFinalHash sha s (currentEpoch s)) = Inr sched"
    using g by (simp only: generateLeaderSchedule_update)
  moreover have "updateSlot sha cmp s sl =
       Inr (cleanupExpiredLockouts
              (if getEpochFromSlot sl > currentEpoch s then transitioned sha ?s1 sched else ?s1))"
    by (simp add: updateSlot_def Let_def t)
  ultimately show ?thesis by blast
qed

text \<open>
  What \<open>updateSlot\<close> does to the engine.  It always returns; afterwards the current
  slot is the given slot.  When the epoch of the slot exceeds the stored current
  epoch, \<open>epochFinalHash\<close> is what \<open>calculateEpochFinalHash\<close> gives for the stored
  epoch, the current epoch is one more, the schedule generated from that hash is
  stored under the new epoch with that hash as its seed, and the block list of the
  new epoch is set to the empty list; otherwise these fields are as before.  In both
  cases each lockout table keeps exactly the entries whose expiry is after the new
  slot.
\<close>

lemma updateSlot_effect:
  assumes "consensus_inv s"
  shows "\<exists>s'. updateSlot sha cmp s sl = Inr s' \<and>
     currentSlot s' = sl \<and>
     lockouts s' =
       map (\<lambda>(k, table). (k, filter (\<lambda>(slt, expiry). \<not> sl \<ge> expiry) table)) (lockouts s) \<and>
     validators s' = validators s \<and> votes s' = votes s \<and>
     (if getEpochFromSlot sl > currentEpoch s
      then epochFinalHash s' = Some (calculateEpochFinalHash sha s (currentEpoch s)) \<and>
           currentEpoch s' = currentEpoch s + 1 \<and>
           epochStartSlot s' = sl \<and>
           generateLeaderSchedule sha cmp s (currentEpoch s + 1)
             (calculateEpochFinalHash sha s (currentEpoch s)) = Inr (leaderSchedule s') \<and>
           map_of (leaderSchedules s') (currentEpoch s + 1) =
             Some \<lparr> ls_epoch = currentEpoch s + 1, schedule = leaderSchedule s',
                    seed = calculateEpochFinalHash sha s (currentEpoch s) \<rparr> \<and>
           epochBlocks s' = AList.update (currentEpoch s + 1) [] (epochBlocks s)
      else currentEpoch s' = currentEpoch s \<and> epochFinalHash s' = epochFinalHash s \<and>
           leaderSchedules s' = leaderSchedules s \<and> leaderSchedule s' = leaderSchedule s \<and>
           epochBlocks s' = epochBlocks s \<and> epochStartSlot s' = epochStartSlot s)"
proof -
  let ?s1 = "s\<lparr> currentSlot := sl \<rparr>"
  from updateSlot_eq [of sha cmp s sl] obtain sched where
    g: "generateLeaderSchedule sha cmp s (currentEpoch s + 1)
          (calculateEpochFinalHash sha s (currentEpoch s)) = Inr sched"
    and u: "updateSlot sha cmp s sl =
       Inr (cleanupExpiredLockouts
              (if getEpochFromSlot sl > currentEpoch s then transitioned sha ?s1 sched else ?s1))"
    by blast
  have inv1: "consensus_inv ?s1" using assms by (rule inv_currentSlot)
  show ?thesis
  proof (cases "getEpochFromSlot sl > currentEpoch s")
    case False
    have l: "lockouts (cleanupExpiredLockouts ?s1) =
       map (\<lambda>(k, table). (k, filter (\<lambda>(slt, expiry). \<not> sl \<ge> expiry) table)) (lockouts s)"
      using cleanupExpiredLockouts_lockouts [OF inv1] by simp
    from False u have "updateSlot sha cmp s sl = Inr (cleanupExpiredLockouts ?s1)" by simp
    with False l show ?thesis
      by (simp add: cleanupExpiredLockouts_fields)
  next
    case True
    let ?s2 = "transitioned sha ?s1 sched"
    have inv2: "consensus_inv ?s2" using inv1 by (rule inv_transitioned)
    have l: "lockouts (cleanupExpiredLockouts ?s2) =
       map (\<lambda>(k, table). (k, filter (\<lambda>(slt, expiry). \<not> sl \<ge> expiry) table)) (lockouts s)"
      using cleanupExpiredLockouts_lockouts [OF inv2] by (simp add: transitioned_fields)
    from True u have "updateSlot sha cmp s sl = Inr (cleanupExpiredLockouts ?s2)" by simp
    with True l g show ?thesis
      by (simp add: cleanupExpiredLockouts_fields transitioned_fields
          calculateEpochFinalHash_update update_conv')
  qed
qed

lemma inv_updateSlot:
  assumes "consensus_inv s" and "updateSlot sha cmp s sl = Inr s'"
  shows "consensus_inv s'"
proof -
  let ?s1 = "s\<lparr> currentSlot := sl \<rparr>"
  from updateSlot_eq [of sha cmp s sl] assms(2) obtain sched where
    "s' = cleanupExpiredLockouts
            (if getEpochFromSlot sl > currentEpoch s then transitioned sha ?s1 sched else ?s1)"
    by auto
  moreover have "consensus_inv (if getEpochFromSlot sl > currentEpoch s
      then transitioned sha ?s1 sched else ?s1)"
    using assms(1) by (simp add: inv_transitioned inv_currentSlot)
  ultimately show ?thesis by (simp only: inv_cleanupExpiredLockouts)
qed

text \<open>
  Claim C5.  The final hash of an ended epoch is not always the digest of the hashes of
  the blocks accepted for that epoch.  \<open>addBlock\<close> files a block under the epoch of its
  slot and keeps a list that is already there; the transition into an epoch replaces
  the list of that epoch by the empty list.  A node hands a block to \<open>addBlock\<close> before
  it calls \<open>updateSlot\<close> with the block's slot, so the first block of an epoch is filed
  while the stored epoch is still the previous one, and the transition then discards it.
  Here the engine is given the block of slot 64, then \<open>updateSlot 64\<close> and
  \<open>updateSlot 128\<close>: before the first transition the list of epoch 1 holds the block,
  after it the list is empty, and the second transition ends epoch 1 with the digest
  of the placeholder \<open>epoch-1-empty\<close>, whatever the digest function and the collation.
\<close>

theorem updateSlot_drops_block:
  "\<exists>s1 s2.
     updateSlot sha cmp early_state 64 = Inr s1 \<and>
     updateSlot sha cmp s1 128 = Inr s2 \<and>
     getEpochFromSlot (slot block64) = 1 \<and>
     map_of (epochBlocks early_state) 1 = Some [block64] \<and>
     currentSlot s1 = 64 \<and> currentEpoch s1 = 1 \<and>
     map_of (epochBlocks s1) 1 = Some [] \<and>
     currentSlot s2 = 128 \<and> currentEpoch s2 = 2 \<and>
     epochFinalHash s2 = Some (digest_hex (sha ''epoch-1-empty''))"
proof -
  have inv0: "consensus_inv early_state"
    unfolding early_state_def by (intro inv_addBlock inv_addValidator inv_initial)
  have ep: "getEpochFromSlot (slot block64) = 1"
    by (simp add: getEpochFromSlot_def SLOTS_PER_EPOCH_def block64_def)
  have b0: "epochBlocks early_state = [(0, []), (1, [block64])]"
    by (simp add: early_state_def addBlock_def ep Let_def addValidator_def initial_def)
  have c0: "currentEpoch early_state = 0"
    by (simp add: early_state_def addBlock_def Let_def addValidator_def initial_def)
  have e64: "getEpochFromSlot 64 > currentEpoch early_state"
    by (simp add: c0 getEpochFromSlot_def SLOTS_PER_EPOCH_def)
  from updateSlot_effect [OF inv0, of sha cmp 64] e64 obtain s1 where
    u1: "updateSlot sha cmp early_state 64 = Inr s1"
    and sl1: "currentSlot s1 = 64"
    and c1: "currentEpoch s1 = 1"
    and b1: "epochBlocks s1 = [(0, []), (1, [])]"
    by (auto simp: c0 b0)
  have inv1: "consensus_inv s1" using inv0 u1 by (rule inv_updateSlot)
  have e128: "getEpochFromSlot 128 > currentEpoch s1"
    by (simp add: c1 getEpochFromSlot_def SLOTS_PER_EPOCH_def)
  have t1: "toString 1 = ''1''"
    by code_simp
  have f1: "calculateEpochFinalHash sha s1 1 = digest_hex (sha ''epoch-1-empty'')"
    by (simp add: calculateEpochFinalHash_def b1 t1)
  from updateSlot_effect [OF inv1, of sha cmp 128] e128 obtain s2 where
    u2: "updateSlot sha cmp s1 128 = Inr s2"
    and sl2: "currentSlot s2 = 128"
    and c2: "currentEpoch s2 = 2"
    and h2: "epochFinalHash s2 = Some (digest_hex (sha ''epoch-1-empty''))"
    by (auto simp: c1 f1)
  from u1 u2 ep sl1 c1 sl2 c2 h2 show ?thesis
    by (simp add: b0 b1)
qed

section \<open>The invariant holds in every reachable state\<close>

lemma reachable_inv: "reachable sha cmp s \<Longrightarrow> consensus_inv s"
proof (induction rule: reachable.induct)
  case r_initial
  show ?case by (rule inv_initial)
next
  case (r_addValidator s v)
  then show ?case by (simp add: inv_addValidator)
next
  case (r_removeValidator s pk)
  then show ?case by (simp add: inv_removeValidator)
next
  case (r_addVote s vt)
  then show ?case by (simp add: inv_addVote)
next
  case (r_addBlock s blk)
  then show ?case by (simp add: inv_addBlock)
next
  case (r_updateSlot s sl s')
  then show ?case using inv_updateSlot by blast
qed


text \<open>The stored epoch is never negative, so every schedule the engine generates at a
  transition is one for an epoch after genesis.\<close>

lemma currentEpoch_updateSlot:
  assumes "updateSlot sha cmp s sl = Inr s'"
  shows "currentEpoch s' = (if getEpochFromSlot sl > currentEpoch s then currentEpoch s + 1
                            else currentEpoch s)"
proof -
  from updateSlot_eq [of sha cmp s sl] assms obtain sched where
    "s' = cleanupExpiredLockouts
            (if getEpochFromSlot sl > currentEpoch s
             then transitioned sha (s\<lparr> currentSlot := sl \<rparr>) sched
             else s\<lparr> currentSlot := sl \<rparr>)"
    by auto
  then show ?thesis
    by (simp add: cleanupExpiredLockouts_fields transitioned_fields)
qed

lemma reachable_currentEpoch: "reachable sha cmp s \<Longrightarrow> 0 \<le> currentEpoch s"
proof (induction rule: reachable.induct)
  case r_initial
  show ?case by (simp add: initial_def)
next
  case (r_addValidator s v)
  then show ?case by (simp add: addValidator_def Let_def)
next
  case (r_removeValidator s pk)
  then show ?case by (simp add: removeValidator_def)
next
  case (r_addVote s vt)
  then show ?case
    by (simp add: addVote_def Let_def updateLockout_def split: option.splits)
next
  case (r_addBlock s blk)
  then show ?case by (simp add: addBlock_def Let_def)
next
  case (r_updateSlot s sl s')
  from currentEpoch_updateSlot [OF r_updateSlot.hyps(2)] r_updateSlot.IH
  show ?case by (simp split: if_splits)
qed

end
